theory Spec2Isabelle
  imports Main "HOL-Library.Sublist"
begin

section \<open>Host values, numbers and text\<close>

text \<open>
  The library is JavaScript. Host values are modelled by the kinds the code tests for:
  \<open>undefined\<close>, \<open>null\<close>, numbers, strings, functions and plain objects. A plain object
  is the list of its own properties in the order the language enumerates them; its
  prototype is \<open>Object.prototype\<close>. Arrays passed as a whole argument are a separate
  argument type at each entry point.

  A JavaScript number is a double and a \<open>Float32Array\<close> element holds the nearest
  float32. Neither format is fixed here: numbers are a type parameter \<open>'n\<close>, and the
  primitives the code relies on are carried in a record: \<open>fround\<close> is the rounding a
  \<open>Float32Array\<close> write performs, \<open>to_number\<close> is the language's conversion of a value
  that is not a number, \<open>num_falsy\<close> holds of the numbers that \<open>!x\<close> accepts (zero and
  NaN), \<open>num_zero\<close> is the content of a fresh typed array.
\<close>

datatype 'n jsval =
    Undefined
  | Null
  | Num 'n
  | Str string
  | Function
  | Obj "(string \<times> 'n jsval) list"

record 'n number_ops =
  fround :: "'n \<Rightarrow> 'n"
  to_number :: "'n jsval \<Rightarrow> 'n"
  num_falsy :: "'n \<Rightarrow> bool"
  num_zero :: "'n"

definition ToNumber :: "'n number_ops \<Rightarrow> 'n jsval \<Rightarrow> 'n" where
  "ToNumber ops v = (case v of Num n \<Rightarrow> n | _ \<Rightarrow> to_number ops v)"

definition falsy :: "'n number_ops \<Rightarrow> 'n jsval \<Rightarrow> bool" where
  "falsy ops v =
     (case v of Undefined \<Rightarrow> True | Null \<Rightarrow> True | Num n \<Rightarrow> num_falsy ops n
      | Str s \<Rightarrow> s = [] | Function \<Rightarrow> False | Obj ps \<Rightarrow> False)"

text \<open>\<open>new Float32Array([v1, v2, ...])\<close>: each element is converted and rounded.\<close>

definition new_Float32Array :: "'n number_ops \<Rightarrow> 'n jsval list \<Rightarrow> 'n list" where
  "new_Float32Array ops vs = map (\<lambda>v. fround ops (ToNumber ops v)) vs"

text \<open>
  Property read \<open>o[k]\<close>, the test \<open>k in o\<close> and the assignment \<open>o[k] = v\<close> on a plain
  object. A read and the test \<open>in\<close> also see the properties of \<open>Object.prototype\<close>:
  its functions, and the accessor \<open>__proto__\<close>, which reads as the prototype (an object
  with no enumerable property of its own). An assignment to \<open>__proto__\<close> goes to the
  accessor and creates no own property (an object value becomes the prototype, which
  the list of own properties does not show). An assignment to a new key adds it where
  the language enumerates it: an array index (the decimal text of an integer below
  \<open>2^32 - 1\<close>) in ascending order before every other key, any other key at the end.
\<close>

definition is_digit :: "char \<Rightarrow> bool" where
  "is_digit c = (48 \<le> (of_char c :: nat) \<and> (of_char c :: nat) \<le> 57)"

definition digits_value :: "string \<Rightarrow> int" where
  "digits_value s = foldl (\<lambda>acc c. 10 * acc + (of_char c - 48)) 0 s"

definition is_index :: "string \<Rightarrow> bool" where
  "is_index k =
     (k \<noteq> [] \<and> list_all is_digit k \<and> (k = ''0'' \<or> hd k \<in> set ''123456789'') \<and>
      digits_value k < 4294967295)"

definition prototype_functions :: "string list" where
  "prototype_functions =
     [''constructor'', ''hasOwnProperty'', ''isPrototypeOf'', ''propertyIsEnumerable'',
      ''toLocaleString'', ''toString'', ''valueOf'', ''__defineGetter__'',
      ''__defineSetter__'', ''__lookupGetter__'', ''__lookupSetter__'']"

definition get_prop :: "(string \<times> 'n jsval) list \<Rightarrow> string \<Rightarrow> 'n jsval" where
  "get_prop ps k =
     (case map_of ps k of
        Some v \<Rightarrow> v
      | None \<Rightarrow>
          if k \<in> set prototype_functions then Function
          else if k = ''__proto__'' then Obj []
          else Undefined)"

definition has_prop :: "(string \<times> 'n jsval) list \<Rightarrow> string \<Rightarrow> bool" where
  "has_prop ps k =
     (k \<in> set (map fst ps) \<or> k \<in> set prototype_functions \<or> k = ''__proto__'')"

definition before_index :: "string \<Rightarrow> string \<times> 'n jsval \<Rightarrow> bool" where
  "before_index k p = (is_index (fst p) \<and> digits_value (fst p) < digits_value k)"

definition set_prop ::
  "(string \<times> 'n jsval) list \<Rightarrow> string \<Rightarrow> 'n jsval \<Rightarrow> (string \<times> 'n jsval) list" where
  "set_prop ps k v =
     (if k \<in> set (map fst ps) then map (\<lambda>p. if fst p = k then (k, v) else p) ps
      else if k = ''__proto__'' then ps
      else if is_index k
      then takeWhile (before_index k) ps @ (k, v) # dropWhile (before_index k) ps
      else ps @ [(k, v)])"

text \<open>
  Text is a list of 8-bit characters. \<open>is_space\<close> is the class \<open>\s\<close> (and what \<open>trim\<close>
  removes) on that range; \<open>is_word\<close> is the class \<open>\w\<close>, which also decides \<open>\b\<close>.
\<close>

definition is_space :: "char \<Rightarrow> bool" where
  "is_space c = (of_char c \<in> {9, 10, 11, 12, 13, 32, 160 :: nat})"

definition is_word :: "char \<Rightarrow> bool" where
  "is_word c =
     (let n = (of_char c :: nat)
      in (48 \<le> n \<and> n \<le> 57) \<or> (65 \<le> n \<and> n \<le> 90) \<or> (97 \<le> n \<and> n \<le> 122) \<or> n = 95)"

definition trim :: "string \<Rightarrow> string" where
  "trim s = rev (dropWhile is_space (rev (dropWhile is_space s)))"

definition digit_char :: "nat \<Rightarrow> char" where
  "digit_char d = char_of (48 + d)"

function string_of_nat :: "nat \<Rightarrow> string" where
  "string_of_nat n =
     (if n < 10 then [digit_char n] else string_of_nat (n div 10) @ [digit_char (n mod 10)])"
  by pat_completeness auto
termination
  by (relation "measure (\<lambda>n. n)") auto

declare string_of_nat.simps [simp del]

section \<open>Errors\<close>

text \<open>One constructor per \<open>throw\<close> of the source; a wrapper keeps the error it wraps.\<close>

datatype vtype = type_f32 | type_vec2 | type_vec3 | type_vec4 | type_color

datatype error =
    StructNameError
  | InputValuesRequired
  | InvalidValueAt nat
  | MissingField string nat
  | ExpectedNumber
  | ExpectedProperties vtype
  | RangeError
  | ArrayTooShort
  | ValuesRequired
  | EmptyValuesArray
  | FailedToCreateStructBuffer error
  | FailedToCreateChunk nat error
  | DeviceNotInitialized string
  | DataMustBeArray
  | FailedToCreateBuffer error
  | UpdateDataInvalid
  | FailedToUpdateBuffer error
  | TypeError
  | InvalidPassInArray
  | InvalidPass
  | FailedToRunRenderPass error
  | FailedToRunPasses error

section \<open>Layout types and struct descriptors (struct.js)\<close>

text \<open>
  The five predefined layout types. A field type is one of these; a struct used as a
  field type, or a caller-made type object, is outside the model.
\<close>

fun type_size :: "vtype \<Rightarrow> nat" where
  "type_size type_f32 = 4"
| "type_size type_vec2 = 8"
| "type_size type_vec3 = 12"
| "type_size type_vec4 = 16"
| "type_size type_color = 16"

fun type_keys :: "vtype \<Rightarrow> string list" where
  "type_keys type_f32 = []"
| "type_keys type_vec2 = [''x'', ''y'']"
| "type_keys type_vec3 = [''x'', ''y'', ''z'']"
| "type_keys type_vec4 = [''x'', ''y'', ''z'', ''w'']"
| "type_keys type_color = [''r'', ''g'', ''b'', ''a'']"

text \<open>
  \<open>type.toFloat32Array(val)\<close>: \<open>type_f32\<close> wants \<open>typeof val === 'number'\<close>; the
  vector types want a truthy object in which every component key is present, and read
  the components into a new \<open>Float32Array\<close>.
\<close>

fun type_toFloat32Array :: "'n number_ops \<Rightarrow> vtype \<Rightarrow> 'n jsval \<Rightarrow> error + 'n list" where
  "type_toFloat32Array ops type_f32 v =
     (case v of Num n \<Rightarrow> Inr (new_Float32Array ops [Num n]) | _ \<Rightarrow> Inl ExpectedNumber)"
| "type_toFloat32Array ops t v =
     (case v of
        Obj ps \<Rightarrow>
          if list_all (has_prop ps) (type_keys t)
          then Inr (new_Float32Array ops (map (get_prop ps) (type_keys t)))
          else Inl (ExpectedProperties t)
      | _ \<Rightarrow> Inl (ExpectedProperties t))"

text \<open>\<open>arr[i]\<close> on a typed array: \<open>undefined\<close> out of range.\<close>

definition elem :: "'n list \<Rightarrow> nat \<Rightarrow> 'n jsval" where
  "elem arr i = (if i < length arr then Num (arr ! i) else Undefined)"

fun type_fromFloat32Array :: "vtype \<Rightarrow> 'n list \<Rightarrow> 'n jsval" where
  "type_fromFloat32Array type_f32 arr = elem arr 0"
| "type_fromFloat32Array t arr =
     Obj (map (\<lambda>(k, i). (k, elem arr i)) (zip (type_keys t) [0 ..< length (type_keys t)]))"

record field =
  field_name :: string
  field_type :: vtype

record struct =
  struct_name :: string
  struct_data :: "field list"

text \<open>The getters \<open>byteSize\<close> (a \<open>reduce\<close> from 0) and \<open>floatSize\<close> (\<open>byteSize / 4\<close>; the
  sizes of the five types are multiples of 4, so the quotient is exact).\<close>

definition byteSize :: "struct \<Rightarrow> nat" where
  "byteSize S = foldl (\<lambda>acc cur. acc + type_size (field_type cur)) 0 (struct_data S)"

definition floatSize :: "struct \<Rightarrow> nat" where
  "floatSize S = byteSize S div 4"

definition FILLER :: "nat \<Rightarrow> field" where
  "FILLER i = \<lparr>field_name = ''FILLER___'' @ string_of_nat i, field_type = type_f32\<rparr>"

text \<open>
  The constructor: the name must not be blank; the field list is kept; when
  \<open>floatSize % 4 != 0\<close>, \<open>4 - floatSize % 4\<close> fields \<open>FILLER___i\<close> of type \<open>f32\<close> are
  pushed, \<open>i\<close> counting from 0.
\<close>

definition Struct_new :: "string \<Rightarrow> field list \<Rightarrow> error + struct" where
  "Struct_new name data =
     (if trim name = [] then Inl StructNameError
      else
        let this = \<lparr>struct_name = name, struct_data = data\<rparr>
        in if floatSize this mod 4 \<noteq> 0
           then
             let fillerCount = 4 - floatSize this mod 4
             in Inr (this\<lparr>struct_data := struct_data this @ map FILLER [0 ..< fillerCount]\<rparr>)
           else Inr this)"

text \<open>\<open>add(name, type)\<close> pushes one more field; nothing is padded again.\<close>

definition Struct_add :: "struct \<Rightarrow> string \<Rightarrow> vtype \<Rightarrow> error + struct" where
  "Struct_add S name t =
     (if trim name = [] then Inl StructNameError
      else Inr (S\<lparr>struct_data := struct_data S @ [\<lparr>field_name = name, field_type = t\<rparr>]\<rparr>))"

text \<open>\<open>object()\<close>: the default record, one entry per field of \<open>data\<close>.\<close>

fun type_object :: "'n number_ops \<Rightarrow> 'n \<Rightarrow> vtype \<Rightarrow> 'n jsval" where
  "type_object ops one type_f32 = Num (num_zero ops)"
| "type_object ops one type_color =
     Obj [(''r'', Num (num_zero ops)), (''g'', Num (num_zero ops)), (''b'', Num (num_zero ops)),
          (''a'', Num one)]"
| "type_object ops one t = Obj (map (\<lambda>k. (k, Num (num_zero ops))) (type_keys t))"

definition Struct_object :: "'n number_ops \<Rightarrow> 'n \<Rightarrow> struct \<Rightarrow> (string \<times> 'n jsval) list" where
  "Struct_object ops one S =
     foldl (\<lambda>obj f. set_prop obj (field_name f) (type_object ops one (field_type f))) []
       (struct_data S)"

text \<open>
  \<open>TypedArray.set(src, offset)\<close> raises a \<open>RangeError\<close> when the source does not fit.
\<close>

definition f32_set :: "'n list \<Rightarrow> 'n list \<Rightarrow> nat \<Rightarrow> error + 'n list" where
  "f32_set arr src offset =
     (if offset + length src > length arr then Inl RangeError
      else Inr (take offset arr @ src @ drop (offset + length src) arr))"

text \<open>
  \<open>toFloat32Array(vals)\<close>. The inner \<open>forEach\<close> over \<open>this.data\<close> (every field, fillers
  included) reads \<open>val[name]\<close>, raises on \<open>undefined\<close>, writes the packed value at
  \<open>offset\<close> and advances; the outer \<open>forEach\<close> runs it for each record.
\<close>

fun pack_fields ::
  "'n number_ops \<Rightarrow> field list \<Rightarrow> (string \<times> 'n jsval) list \<Rightarrow> nat \<Rightarrow> 'n list \<Rightarrow> nat
     \<Rightarrow> error + ('n list \<times> nat)" where
  "pack_fields ops [] val i arr offset = Inr (arr, offset)"
| "pack_fields ops (f # fs) val i arr offset =
     (let v = get_prop val (field_name f)
      in if v = Undefined then Inl (MissingField (field_name f) i)
         else
           case type_toFloat32Array ops (field_type f) v of
             Inl e \<Rightarrow> Inl e
           | Inr xs \<Rightarrow>
               (case f32_set arr xs offset of
                  Inl e \<Rightarrow> Inl e
                | Inr arr' \<Rightarrow>
                    pack_fields ops fs val i arr' (offset + type_size (field_type f) div 4)))"

fun pack_vals ::
  "'n number_ops \<Rightarrow> field list \<Rightarrow> 'n jsval list \<Rightarrow> nat \<Rightarrow> 'n list \<Rightarrow> nat
     \<Rightarrow> error + ('n list \<times> nat)" where
  "pack_vals ops data [] i arr offset = Inr (arr, offset)"
| "pack_vals ops data (val # vals) i arr offset =
     (case val of
        Obj ps \<Rightarrow>
          (case pack_fields ops data ps i arr offset of
             Inl e \<Rightarrow> Inl e
           | Inr (arr', offset') \<Rightarrow> pack_vals ops data vals (Suc i) arr' offset')
      | _ \<Rightarrow> Inl (InvalidValueAt i))"

datatype 'n vals_arg = OneValue "'n jsval" | ValueArray "'n jsval list"

definition pack_array :: "'n number_ops \<Rightarrow> struct \<Rightarrow> 'n jsval list \<Rightarrow> error + 'n list" where
  "pack_array ops S vals =
     (case pack_vals ops (struct_data S) vals 0
             (replicate (floatSize S * length vals) (num_zero ops)) 0 of
        Inl e \<Rightarrow> Inl e
      | Inr (arr, offset) \<Rightarrow> Inr arr)"

definition toFloat32Array :: "'n number_ops \<Rightarrow> struct \<Rightarrow> 'n vals_arg \<Rightarrow> error + 'n list" where
  "toFloat32Array ops S vals =
     (case vals of
        OneValue v \<Rightarrow> if falsy ops v then Inl InputValuesRequired else pack_array ops S [v]
      | ValueArray vs \<Rightarrow> pack_array ops S vs)"

text \<open>
  \<open>fromFloat32Array(arr)\<close>. One round of the \<open>while\<close> loop reads every field of
  \<open>this.data\<close> into a fresh object, raising when the next field would pass the end.
  The loop runs while \<open>offset < arr.length\<close>; with an empty field list the offset never
  moves, so the loop is a partial function and not returning is the value \<open>None\<close>.
\<close>

definition slice :: "'a list \<Rightarrow> nat \<Rightarrow> nat \<Rightarrow> 'a list" where
  "slice xs a b = take (b - a) (drop a xs)"





section \<open>Notions used to state the properties of packing\<close>

text \<open>
  \<open>field_accepted\<close>: the record has a value for the field and the field's type packs it.
  \<open>packed\<close> is then the float32 sequence the type writes, and \<open>rounded\<close> the value the
  type reads back from it. \<open>exact_value\<close> holds of a value that has exactly the shape
  the type's reader builds (a number, or an object with the component keys in order and
  nothing else) and whose numbers are fixed by the float32 rounding.
\<close>

definition field_accepted :: "'n number_ops \<Rightarrow> (string \<times> 'n jsval) list \<Rightarrow> field \<Rightarrow> bool" where
  "field_accepted ops R f =
     (get_prop R (field_name f) \<noteq> Undefined \<and>
      \<not> isl (type_toFloat32Array ops (field_type f) (get_prop R (field_name f))))"

definition packed :: "'n number_ops \<Rightarrow> (string \<times> 'n jsval) list \<Rightarrow> field \<Rightarrow> 'n list" where
  "packed ops R f =
     (case type_toFloat32Array ops (field_type f) (get_prop R (field_name f)) of
        Inl e \<Rightarrow> [] | Inr xs \<Rightarrow> xs)"

definition rounded :: "'n number_ops \<Rightarrow> (string \<times> 'n jsval) list \<Rightarrow> field \<Rightarrow> 'n jsval" where
  "rounded ops R f = type_fromFloat32Array (field_type f) (packed ops R f)"



definition record_matches :: "'n number_ops \<Rightarrow> struct \<Rightarrow> 'n jsval \<Rightarrow> bool" where
  "record_matches ops S v =
     (case v of Obj R \<Rightarrow> list_all (field_accepted ops R) (struct_data S) | _ \<Rightarrow> False)"

section \<open>A small number system for evaluating examples\<close>

text \<open>
  Integers and NaN (\<open>None\<close>). \<open>f32_of_int\<close> rounds an integer to 24 significant bits,
  ties to even, as a float32 write does to an integer below the overflow threshold
  \<open>2^128\<close>. \<open>string_to_int\<close> is the conversion of a string that denotes an integer
  without a decimal point or an exponent: blank text is 0; decimal digits with an
  optional sign; hexadecimal, octal and binary digits behind \<open>0x\<close>, \<open>0o\<close>, \<open>0b\<close>. A
  number that is not an integer, and \<open>Infinity\<close>, have no value in this system, so the
  examples use none. The theorems below do not depend on this system.
\<close>

definition digit_of :: "char \<Rightarrow> nat option" where
  "digit_of c =
     (let n = (of_char c :: nat)
      in if 48 \<le> n \<and> n \<le> 57 then Some (n - 48)
         else if 97 \<le> n \<and> n \<le> 102 then Some (n - 87)
         else if 65 \<le> n \<and> n \<le> 70 then Some (n - 55)
         else None)"

definition radix_value :: "nat \<Rightarrow> string \<Rightarrow> nat option" where
  "radix_value r s =
     (if s = [] then None
      else foldl (\<lambda>acc c. case (acc, digit_of c) of
                      (Some a, Some d) \<Rightarrow> if d < r then Some (r * a + d) else None
                    | _ \<Rightarrow> None) (Some 0) s)"

definition string_to_int :: "string \<Rightarrow> int option" where
  "string_to_int s =
     (let t = trim s
      in if t = [] then Some 0
         else if take 2 t \<in> {''0x'', ''0X''} then map_option int (radix_value 16 (drop 2 t))
         else if take 2 t \<in> {''0o'', ''0O''} then map_option int (radix_value 8 (drop 2 t))
         else if take 2 t \<in> {''0b'', ''0B''} then map_option int (radix_value 2 (drop 2 t))
         else if hd t = CHR ''-'' then map_option (\<lambda>n. - int n) (radix_value 10 (tl t))
         else if hd t = CHR ''+'' then map_option int (radix_value 10 (tl t))
         else map_option int (radix_value 10 t))"

function bitlen :: "nat \<Rightarrow> nat" where
  "bitlen n = (if n = 0 then 0 else Suc (bitlen (n div 2)))"
  by pat_completeness auto
termination
  by (relation "measure (\<lambda>n. n)") auto

declare bitlen.simps [simp del]

definition f32_of_int :: "int \<Rightarrow> int" where
  "f32_of_int n =
     (let a = nat \<bar>n\<bar>;
          e = bitlen a - 24;
          q = a div 2 ^ e;
          r = a mod 2 ^ e;
          up = (2 * r > 2 ^ e \<or> (2 * r = 2 ^ e \<and> odd q))
      in sgn n * int ((if up then q + 1 else q) * 2 ^ e))"

definition example_ops :: "int option number_ops" where
  "example_ops =
     \<lparr>fround = map_option f32_of_int,
      to_number =
        (\<lambda>v. case v of
            Null \<Rightarrow> Some 0
          | Num n \<Rightarrow> n
          | Str s \<Rightarrow> string_to_int s
          | _ \<Rightarrow> None),
      num_falsy = (\<lambda>n. n = None \<or> n = Some 0),
      num_zero = Some 0\<rparr>"

section \<open>The device and buffer handles (core.js)\<close>

text \<open>
  The GPU device is the browser's, not the library's. It is modelled as far as the
  library observes it: whether the module variable \<open>device\<close> is set, the contents of
  the buffers it has allocated (a buffer is identified by its position), the command
  buffers handed to \<open>queue.submit\<close> (one list per call), and the number of validation
  errors raised on the device timeline, which reach no JavaScript caller. Allocation is
  taken to succeed.
\<close>

datatype resource = BufferResource nat | TextureResource nat | SamplerResource | NoResource

datatype command =
    BeginComputePass
  | BeginRenderPass
  | SetPipeline string string
  | SetBindGroup nat "resource list"
  | DispatchWorkgroups "nat option list"
  | Draw nat
  | EndPass

record 'n device_state =
  initialized :: bool
  buffers :: "'n list list"
  submitted :: "command list list list"
  validation_errors :: nat

text \<open>
  \<open>device.queue.writeBuffer(buffer, 0, data)\<close> with a \<open>Float32Array\<close>: the bytes are
  written from offset 0 when they fit the allocation; otherwise the device records a
  validation error and writes nothing. Neither case raises in the caller.
\<close>

definition writeBuffer :: "'n device_state \<Rightarrow> nat \<Rightarrow> 'n list \<Rightarrow> 'n device_state" where
  "writeBuffer dev b xs =
     (if b < length (buffers dev) \<and> length xs \<le> length (buffers dev ! b)
      then dev\<lparr>buffers := (buffers dev)[b := xs @ drop (length xs) (buffers dev ! b)]\<rparr>
      else dev\<lparr>validation_errors := Suc (validation_errors dev)\<rparr>)"

record 'n buffer =
  buffer_name :: string
  buffer_data :: "'n list"
  buffer_size :: nat
  buffer_gpu :: nat
  buffer_struct :: "struct option"
  buffer_isArray :: bool
  buffer_count :: "nat option"

datatype 'n data_arg = ArrayData "'n jsval list" | Float32Data "'n list" | OtherData "'n jsval"

text \<open>
  \<open>new Buffer(name, data)\<close>: raises without a device; a plain array is converted to a
  \<open>Float32Array\<close>, anything else that is not one is refused (inside the \<open>try\<close>, so the
  error is wrapped); the device buffer is allocated with the data's byte length and
  filled with the data. \<open>struct\<close>, \<open>isArray\<close> and \<open>count\<close> are not set here.
\<close>

definition Buffer_new ::
  "'n number_ops \<Rightarrow> 'n device_state \<Rightarrow> string \<Rightarrow> 'n data_arg
     \<Rightarrow> (error + 'n buffer) \<times> 'n device_state" where
  "Buffer_new ops dev name data =
     (if \<not> initialized dev then (Inl (DeviceNotInitialized ''Buffer''), dev)
      else
        case data of
          OtherData v \<Rightarrow> (Inl (FailedToCreateBuffer DataMustBeArray), dev)
        | _ \<Rightarrow>
            let xs = (case data of ArrayData vs \<Rightarrow> new_Float32Array ops vs
                       | Float32Data ys \<Rightarrow> ys | OtherData v \<Rightarrow> [])
            in (Inr \<lparr>buffer_name = name, buffer_data = xs, buffer_size = 4 * length xs,
                     buffer_gpu = length (buffers dev), buffer_struct = None,
                     buffer_isArray = False, buffer_count = None\<rparr>,
                dev\<lparr>buffers := buffers dev @ [xs]\<rparr>))"

text \<open>
  \<open>update(data)\<close>: refuses what is neither an array nor a \<open>Float32Array\<close>; converts an
  array; writes at offset 0 of the existing device buffer; keeps the new data in
  \<open>this.data\<close>. There is no comparison of lengths, and \<open>this.size\<close> and \<open>this.buffer\<close>
  are not assigned. Without a device the property read \<open>device.queue\<close> raises inside
  the \<open>try\<close>.
\<close>

definition Buffer_update ::
  "'n number_ops \<Rightarrow> 'n device_state \<Rightarrow> 'n buffer \<Rightarrow> 'n data_arg
     \<Rightarrow> (error + 'n buffer) \<times> 'n device_state" where
  "Buffer_update ops dev this data =
     (case data of
        OtherData v \<Rightarrow> (Inl UpdateDataInvalid, dev)
      | _ \<Rightarrow>
          let xs = (case data of ArrayData vs \<Rightarrow> new_Float32Array ops vs
                     | Float32Data ys \<Rightarrow> ys | OtherData v \<Rightarrow> [])
          in if \<not> initialized dev then (Inl (FailedToUpdateBuffer TypeError), dev)
             else (Inr (this\<lparr>buffer_data := xs\<rparr>), writeBuffer dev (buffer_gpu this) xs))"

text \<open>
  \<open>getBindingCode(index)\<close> of a buffer: the struct's name, or a type named after the
  byte size, wrapped in \<open>array<...>\<close> when \<open>isArray\<close> is set.
\<close>

definition Buffer_getBindingCode :: "'n buffer \<Rightarrow> nat \<Rightarrow> string" where
  "Buffer_getBindingCode this index =
     (let bufferType =
            (case buffer_struct this of
               Some S \<Rightarrow> struct_name S
             | None \<Rightarrow>
                 if buffer_size this = 4 then ''f32''
                 else if buffer_size this = 8 then ''vec2f''
                 else if buffer_size this = 12 then ''vec3f''
                 else if buffer_size this = 16 then ''vec4f''
                 else ''f32'');
          bufferType' = (if buffer_isArray this then ''array<'' @ bufferType @ ''>'' else bufferType)
      in ''@group(0) @binding('' @ string_of_nat index @ '') var<storage, read_write> ''
           @ buffer_name this @ '': '' @ bufferType' @ '';'')"

section \<open>Buffers from records (struct.js, createBuffer)\<close>

datatype 'n buffers = OneBuffer "'n buffer" | BufferArray "'n buffer list"

text \<open>
  The loop of \<open>createBuffer\<close> for 65000 records and more: \<open>i\<close> advances by 65000; each
  round packs \<open>vals.slice(i, i + 65000)\<close> into a buffer of its own, sets \<open>count\<close> to the
  length of the slice, \<open>struct\<close> and \<open>isArray\<close>, and pushes the buffer. A failure is
  wrapped with the start index of the chunk; buffers allocated before it stay allocated.
\<close>

function chunk_loop ::
  "'n number_ops \<Rightarrow> 'n device_state \<Rightarrow> struct \<Rightarrow> string \<Rightarrow> 'n jsval list \<Rightarrow> nat
     \<Rightarrow> 'n buffer list \<Rightarrow> (error + 'n buffer list) \<times> 'n device_state" where
  "chunk_loop ops dev S name vals i bufs =
     (if i < length vals
      then
        let nextData = slice vals i (i + 65000)
        in case toFloat32Array ops S (ValueArray nextData) of
             Inl e \<Rightarrow> (Inl (FailedToCreateChunk i e), dev)
           | Inr arr \<Rightarrow>
               (case Buffer_new ops dev name (Float32Data arr) of
                  (Inl e, dev') \<Rightarrow> (Inl (FailedToCreateChunk i e), dev')
                | (Inr nextBuffer, dev') \<Rightarrow>
                    chunk_loop ops dev' S name vals (i + 65000)
                      (bufs @ [nextBuffer\<lparr>buffer_count := Some (length nextData),
                                           buffer_struct := Some S,
                                           buffer_isArray := True\<rparr>]))
      else (Inr bufs, dev))"
  by pat_completeness auto
termination
  by (relation "measure (\<lambda>(ops, dev, S, name, vals, i, bufs). length vals - i)") auto

declare chunk_loop.simps [simp del]

text \<open>
  \<open>createBuffer(name, vals)\<close>. A single record gives one buffer (errors are not
  wrapped on this path). An array must not be empty; below 65000 records it gives one
  buffer with \<open>isArray\<close> set and no \<open>count\<close>; from 65000 on it gives the array of
  chunk buffers.
\<close>

definition createBuffer ::
  "'n number_ops \<Rightarrow> 'n device_state \<Rightarrow> struct \<Rightarrow> string \<Rightarrow> 'n vals_arg
     \<Rightarrow> (error + 'n buffers) \<times> 'n device_state" where
  "createBuffer ops dev S name vals =
     (case vals of
        OneValue v \<Rightarrow>
          if falsy ops v then (Inl ValuesRequired, dev)
          else
            (case toFloat32Array ops S (ValueArray [v]) of
               Inl e \<Rightarrow> (Inl e, dev)
             | Inr arr \<Rightarrow>
                 (case Buffer_new ops dev name (Float32Data arr) of
                    (Inl e, dev') \<Rightarrow> (Inl e, dev')
                  | (Inr newBuffer, dev') \<Rightarrow>
                      (Inr (OneBuffer (newBuffer\<lparr>buffer_struct := Some S\<rparr>)), dev')))
      | ValueArray vs \<Rightarrow>
          if length vs < 1 then (Inl EmptyValuesArray, dev)
          else if length vs < 65000
          then
            (case toFloat32Array ops S (ValueArray vs) of
               Inl e \<Rightarrow> (Inl (FailedToCreateStructBuffer e), dev)
             | Inr arr \<Rightarrow>
                 (case Buffer_new ops dev name (Float32Data arr) of
                    (Inl e, dev') \<Rightarrow> (Inl (FailedToCreateStructBuffer e), dev')
                  | (Inr newBuffer, dev') \<Rightarrow>
                      (Inr (OneBuffer (newBuffer\<lparr>buffer_struct := Some S,
                                                 buffer_isArray := True\<rparr>)), dev')))
          else
            (case chunk_loop ops dev S name vs 0 [] of
               (Inl e, dev') \<Rightarrow> (Inl e, dev')
             | (Inr bufs, dev') \<Rightarrow> (Inr (BufferArray bufs), dev')))"

text \<open>
  The words of the specification, for comparison with the loop: the consecutive chunks
  of a sequence, each of at most \<open>n\<close> elements.
\<close>

function consecutive_chunks :: "nat \<Rightarrow> 'a list \<Rightarrow> 'a list list" where
  "consecutive_chunks n xs =
     (if n = 0 \<or> xs = [] then [] else take n xs # consecutive_chunks n (drop n xs))"
  by pat_completeness auto
termination
  by (relation "measure (\<lambda>(n, xs). length xs)") auto

declare consecutive_chunks.simps [simp del]

section \<open>Notions used to state the properties of buffer creation\<close>

text \<open>
  \<open>chunk_buffer b c\<close>: the handle \<open>b\<close> is the buffer made for the chunk \<open>c\<close>: it holds the
  packed records of \<open>c\<close>, its \<open>count\<close> is the length of \<open>c\<close>, and \<open>struct\<close>, \<open>isArray\<close>
  and the name are set. \<open>declared_count\<close> reads the \<open>count\<close> attribute, 0 when absent.
\<close>

definition chunk_buffer ::
  "'n number_ops \<Rightarrow> struct \<Rightarrow> string \<Rightarrow> 'n buffer \<Rightarrow> 'n jsval list \<Rightarrow> bool" where
  "chunk_buffer ops S name b c =
     (buffer_count b = Some (length c) \<and> buffer_struct b = Some S \<and> buffer_isArray b \<and>
      buffer_name b = name \<and> toFloat32Array ops S (ValueArray c) = Inr (buffer_data b))"

definition declared_count :: "'n buffer \<Rightarrow> nat" where
  "declared_count b = (case buffer_count b of Some n \<Rightarrow> n | None \<Rightarrow> 0)"

section \<open>The regular expressions the library tests text with\<close>

text \<open>
  The patterns of the source use literals, \<open>\b\<close>, \<open>\s*\<close>, \<open>\s+\<close>, one optional group of
  literal alternatives, and alternation at the top. A pattern is a list of alternatives,
  each a sequence of atoms. \<open>match_atoms r prev s\<close>: the sequence \<open>r\<close> has a match that
  starts at the head of \<open>s\<close>, where \<open>prev\<close> is the character before it (\<open>None\<close> at the
  start of the text). \<open>regex_test\<close> is \<open>re.test(text)\<close>, and the truth value of
  \<open>text.match(re)\<close>: some alternative matches at some position.
\<close>

datatype atom = Lit string | WordBoundary | Spaces0 | Spaces1 | OptLits "string list"

definition boundary :: "char option \<Rightarrow> string \<Rightarrow> bool" where
  "boundary prev s =
     ((case prev of None \<Rightarrow> False | Some c \<Rightarrow> is_word c)
        \<noteq> (case s of [] \<Rightarrow> False | c # cs \<Rightarrow> is_word c))"

definition last_char :: "char option \<Rightarrow> string \<Rightarrow> char option" where
  "last_char prev w = (if w = [] then prev else Some (last w))"

function match_atoms :: "atom list \<Rightarrow> char option \<Rightarrow> string \<Rightarrow> bool" where
  "match_atoms [] prev s = True"
| "match_atoms (Lit w # r) prev s =
     (prefix w s \<and> match_atoms r (last_char prev w) (drop (length w) s))"
| "match_atoms (WordBoundary # r) prev s = (boundary prev s \<and> match_atoms r prev s)"
| "match_atoms (Spaces1 # r) prev [] = False"
| "match_atoms (Spaces1 # r) prev (c # cs) =
     (is_space c \<and> match_atoms (Spaces0 # r) (Some c) cs)"
| "match_atoms (Spaces0 # r) prev [] = match_atoms r prev []"
| "match_atoms (Spaces0 # r) prev (c # cs) =
     (match_atoms r prev (c # cs) \<or> (is_space c \<and> match_atoms (Spaces0 # r) (Some c) cs))"
| "match_atoms (OptLits ws # r) prev s =
     (list_ex (\<lambda>w. prefix w s \<and> match_atoms r (last_char prev w) (drop (length w) s)) ws
      \<or> match_atoms r prev s)"
  by pat_completeness auto
termination
  by (relation "measures [\<lambda>(r, prev, s). length r, \<lambda>(r, prev, s). length s]") auto

fun search_from :: "atom list \<Rightarrow> char option \<Rightarrow> string \<Rightarrow> bool" where
  "search_from r prev [] = match_atoms r prev []"
| "search_from r prev (c # cs) = (match_atoms r prev (c # cs) \<or> search_from r (Some c) cs)"

definition regex_test :: "atom list list \<Rightarrow> string \<Rightarrow> bool" where
  "regex_test re text = list_ex (\<lambda>r. search_from r None text) re"

text \<open>
  \<open>/\bmouse(\.(pos|button))?\b/\<close>, \<open>/\btime\b/\<close>, \<open>/\brenderTxtr\b/\<close>,
  \<open>/\bfeedbackTxtr\b/\<close>, \<open>/\bnoise\s*\(|\bnoise2\s*\(|\bnoise3\s*\(/\<close>,
  \<open>/fn\s+main\s*\(/\<close> and \<open>/fn\s+noise\s*\(/\<close> with its two siblings.
\<close>

definition re_mouse :: "atom list list" where
  "re_mouse = [[WordBoundary, Lit ''mouse'', OptLits [''.pos'', ''.button''], WordBoundary]]"

definition re_time :: "atom list list" where
  "re_time = [[WordBoundary, Lit ''time'', WordBoundary]]"

definition re_renderTxtr :: "atom list list" where
  "re_renderTxtr = [[WordBoundary, Lit ''renderTxtr'', WordBoundary]]"

definition re_feedbackTxtr :: "atom list list" where
  "re_feedbackTxtr = [[WordBoundary, Lit ''feedbackTxtr'', WordBoundary]]"

definition re_noise_call :: "atom list list" where
  "re_noise_call =
     [[WordBoundary, Lit ''noise'', Spaces0, Lit ''(''],
      [WordBoundary, Lit ''noise2'', Spaces0, Lit ''(''],
      [WordBoundary, Lit ''noise3'', Spaces0, Lit ''('']]"

definition re_fn :: "string \<Rightarrow> atom list list" where
  "re_fn name = [[Lit ''fn'', Spaces1, Lit name, Spaces0, Lit ''('']]"

section \<open>Textures and binding views (core.js)\<close>

datatype access = ReadAccess | WriteAccess

record texture =
  texture_name :: string
  texture_format :: string
  texture_view :: nat

record texture_binding =
  tb_texture :: texture
  tb_readOrWrite :: access

definition access_text :: "access \<Rightarrow> string" where
  "access_text a = (case a of ReadAccess \<Rightarrow> ''read'' | WriteAccess \<Rightarrow> ''write'')"

definition TextureBindingHelper_getBindingCode :: "texture_binding \<Rightarrow> nat \<Rightarrow> string" where
  "TextureBindingHelper_getBindingCode this bindingIndex =
     (if tb_readOrWrite this = ReadAccess \<and> texture_format (tb_texture this) = ''rgba8unorm''
      then ''@group(0) @binding('' @ string_of_nat bindingIndex @ '') var ''
             @ texture_name (tb_texture this) @ '': texture_2d<f32>;''
      else ''@group(0) @binding('' @ string_of_nat bindingIndex @ '') var ''
             @ texture_name (tb_texture this) @ '': texture_storage_2d<''
             @ texture_format (tb_texture this) @ '', '' @ access_text (tb_readOrWrite this)
             @ ''>;'')"

text \<open>The getter \<open>code\<close> of a struct: the declaration text.\<close>

definition type_code :: "vtype \<Rightarrow> string \<Rightarrow> string" where
  "type_code t name =
     name @ (case t of type_f32 \<Rightarrow> '': f32'' | type_vec2 \<Rightarrow> '': vec2<f32>''
             | type_vec3 \<Rightarrow> '': vec3<f32>'' | type_vec4 \<Rightarrow> '': vec4<f32>''
             | type_color \<Rightarrow> '': vec4<f32>'')"

definition Struct_code :: "struct \<Rightarrow> string" where
  "Struct_code S =
     (let str = foldl (\<lambda>str f. str @ type_code (field_type f) (field_name f) @ [CHR '','', CHR 0x0A])
                  (''struct '' @ struct_name S @ '' {'' @ [CHR 0x0A]) (struct_data S)
      in take (length str - 2) str @ [CHR 0x0A] @ ''};'')"

section \<open>Compute passes (the ComputePass class)\<close>

text \<open>
  An entry of a binding list is a resource handle or an array of handles. A handle is
  a buffer, a binding view of a texture, or \<open>null\<close> (the value of \<open>mouseBuffer\<close> and
  \<open>timeBuffer\<close> before they are created, which the constructor can push).
\<close>

datatype 'n handle = BufferHandle "'n buffer" | TextureView texture_binding | NullHandle

datatype 'n binding = Handle "'n handle" | HandleArray "'n handle list"

text \<open>
  The module variables the passes read: the device, the well-known resources (each
  unset until its creator has run), the rendering context, and the text of
  \<open>width.toFixed(2)\<close> and \<open>height.toFixed(2)\<close> (\<open>None\<close> while \<open>width\<close> and \<open>height\<close> are
  unset, before \<open>initCanvas\<close>).
\<close>

record 'n env =
  device :: "'n device_state"
  mouseBuffer :: "'n buffer option"
  timeBuffer :: "'n buffer option"
  renderTxtr :: "texture option"
  feedbackTxtr :: "texture option"
  noiseBuffer :: "'n buffer option"
  ctx_ready :: bool
  width_text :: "string option"
  height_text :: "string option"

text \<open>
  A row of the table \<open>Auto_Bindings\<close>: the resource, the pattern, and for the two
  textures the view to take (\<open>function: 'write'\<close> or \<open>'read'\<close>).
\<close>

datatype 'n auto = AutoBuffer "'n buffer option" | AutoTexture "texture option" access

definition Auto_Bindings :: "'n env \<Rightarrow> ('n auto \<times> atom list list) list" where
  "Auto_Bindings env =
     [(AutoBuffer (mouseBuffer env), re_mouse),
      (AutoBuffer (timeBuffer env), re_time),
      (AutoTexture (renderTxtr env) WriteAccess, re_renderTxtr),
      (AutoTexture (feedbackTxtr env) ReadAccess, re_feedbackTxtr)]"

text \<open>\<open>b.name\<close> of an entry (an array has none; \<open>null\<close> raises) and \<open>auto.binding.name\<close>.\<close>

definition entry_name :: "'n binding \<Rightarrow> error + string option" where
  "entry_name b =
     (case b of
        Handle (BufferHandle buf) \<Rightarrow> Inr (Some (buffer_name buf))
      | Handle (TextureView tb) \<Rightarrow> Inr (Some (texture_name (tb_texture tb)))
      | Handle NullHandle \<Rightarrow> Inl TypeError
      | HandleArray hs \<Rightarrow> Inr None)"

definition auto_name :: "'n auto \<Rightarrow> error + string" where
  "auto_name a =
     (case a of
        AutoBuffer None \<Rightarrow> Inl TypeError
      | AutoBuffer (Some buf) \<Rightarrow> Inr (buffer_name buf)
      | AutoTexture None acc \<Rightarrow> Inl TypeError
      | AutoTexture (Some t) acc \<Rightarrow> Inr (texture_name t))"

text \<open>\<open>bindings.some(b => b.name === auto.binding.name)\<close>, left to right.\<close>

fun some_named :: "'n binding list \<Rightarrow> 'n auto \<Rightarrow> error + bool" where
  "some_named [] a = Inr False"
| "some_named (b # bs) a =
     (case entry_name b of
        Inl e \<Rightarrow> Inl e
      | Inr n \<Rightarrow>
          (case auto_name a of
             Inl e \<Rightarrow> Inl e
           | Inr m \<Rightarrow> if n = Some m then Inr True else some_named bs a))"

text \<open>\<open>auto.function ? auto.binding[auto.function]() : auto.binding\<close>.\<close>

definition newBinding :: "'n auto \<Rightarrow> error + 'n handle" where
  "newBinding a =
     (case a of
        AutoBuffer None \<Rightarrow> Inr NullHandle
      | AutoBuffer (Some buf) \<Rightarrow> Inr (BufferHandle buf)
      | AutoTexture None acc \<Rightarrow> Inl TypeError
      | AutoTexture (Some t) acc \<Rightarrow> Inr (TextureView \<lparr>tb_texture = t, tb_readOrWrite = acc\<rparr>))"

definition auto_step ::
  "string \<Rightarrow> 'n binding list \<Rightarrow> 'n auto \<times> atom list list \<Rightarrow> error + 'n binding list" where
  "auto_step code bindings row =
     (if regex_test (snd row) code
      then
        (case some_named bindings (fst row) of
           Inl e \<Rightarrow> Inl e
         | Inr True \<Rightarrow> Inr bindings
         | Inr False \<Rightarrow>
             (case newBinding (fst row) of
                Inl e \<Rightarrow> Inl e
              | Inr h \<Rightarrow> Inr (bindings @ [Handle h])))
      else Inr bindings)"

text \<open>
  The \<open>forEach\<close> over the table. The result is the array as it stands when the loop
  ends or raises, with the error if it raised.
\<close>

fun auto_bind ::
  "string \<Rightarrow> ('n auto \<times> atom list list) list \<Rightarrow> 'n binding list
     \<Rightarrow> error option \<times> 'n binding list" where
  "auto_bind code [] bindings = (None, bindings)"
| "auto_bind code (row # rows) bindings =
     (case auto_step code bindings row of
        Inl e \<Rightarrow> (Some e, bindings)
      | Inr bindings' \<Rightarrow> auto_bind code rows bindings')"

text \<open>The noise test that follows: the noise buffer, when it exists, is pushed.\<close>

definition push_noise :: "'n env \<Rightarrow> string \<Rightarrow> 'n binding list \<Rightarrow> 'n binding list" where
  "push_noise env code bindings =
     (if regex_test re_noise_call code
      then (case noiseBuffer env of
              None \<Rightarrow> bindings
            | Some nb \<Rightarrow> bindings @ [Handle (BufferHandle nb)])
      else bindings)"

text \<open>\<open>findIndex\<close> and \<open>find\<close> of the first entry that is an array.\<close>

fun find_array :: "'n binding list \<Rightarrow> (nat \<times> 'n handle list) option" where
  "find_array [] = None"
| "find_array (HandleArray hs # bs) = Some (0, hs)"
| "find_array (Handle h # bs) = map_option (\<lambda>(i, hs). (Suc i, hs)) (find_array bs)"

definition handle_count :: "'n handle \<Rightarrow> error + nat option" where
  "handle_count h =
     (case h of
        BufferHandle buf \<Rightarrow> Inr (buffer_count buf)
      | TextureView tb \<Rightarrow> Inr None
      | NullHandle \<Rightarrow> Inl TypeError)"

text \<open>
  The dispatch size argument is a number (or \<open>undefined\<close>) or an array of numbers; the
  pass keeps an array.
\<close>

datatype size_arg = SizeValue "nat option" | SizeList "nat list"

record compute_pass =
  pass_code :: string
  pass_entryPoint :: string
  pass_entries :: "resource list"
  pass_dispatchSize :: "nat option list"

datatype construction = Pass compute_pass | Passes "construction list"

definition getBindingCode :: "'n binding \<Rightarrow> nat \<Rightarrow> error + string" where
  "getBindingCode b i =
     (case b of
        Handle (BufferHandle buf) \<Rightarrow> Inr (Buffer_getBindingCode buf i)
      | Handle (TextureView tb) \<Rightarrow> Inr (TextureBindingHelper_getBindingCode tb i)
      | Handle NullHandle \<Rightarrow> Inl TypeError
      | HandleArray hs \<Rightarrow> Inl TypeError)"

definition binding_struct :: "'n binding \<Rightarrow> struct option" where
  "binding_struct b = (case b of Handle (BufferHandle buf) \<Rightarrow> buffer_struct buf | _ \<Rightarrow> None)"

definition binding_resource :: "'n binding \<Rightarrow> resource" where
  "binding_resource b =
     (case b of
        Handle (BufferHandle buf) \<Rightarrow> BufferResource (buffer_gpu buf)
      | Handle (TextureView tb) \<Rightarrow> TextureResource (texture_view (tb_texture tb))
      | _ \<Rightarrow> NoResource)"

fun bindingsCode :: "'n binding list \<Rightarrow> nat \<Rightarrow> string \<Rightarrow> error + string" where
  "bindingsCode [] i acc = Inr acc"
| "bindingsCode (b # bs) i acc =
     (case getBindingCode b i of
        Inl e \<Rightarrow> Inl e
      | Inr line \<Rightarrow> bindingsCode bs (Suc i) (acc @ line @ [CHR 0x0A]))"

text \<open>
  The rest of the constructor, reached when no entry is an array: the binding lines are
  put before the code, then each bound struct's declaration before that; the module,
  the pipeline and the bind group (the entries' resources in list order) are made on the
  device, which raises a \<open>TypeError\<close> when \<open>device\<close> is not set.
\<close>

definition build_pass ::
  "'n env \<Rightarrow> string \<Rightarrow> 'n binding list \<Rightarrow> size_arg \<Rightarrow> string \<Rightarrow> error + compute_pass" where
  "build_pass env code bindings dispatchSize entryPoint =
     (case bindingsCode bindings 0 [] of
        Inl e \<Rightarrow> Inl e
      | Inr lines \<Rightarrow>
          let code1 = lines @ code;
              code2 = foldl (\<lambda>c b. case binding_struct b of
                                      Some S \<Rightarrow> Struct_code S @ [CHR 0x0A] @ c
                                    | None \<Rightarrow> c) code1 bindings
          in if \<not> initialized (device env) then Inl TypeError
             else Inr \<lparr>pass_code = code2, pass_entryPoint = entryPoint,
                       pass_entries = map binding_resource bindings,
                       pass_dispatchSize =
                         (case dispatchSize of SizeValue n \<Rightarrow> [n] | SizeList ns \<Rightarrow> map Some ns)\<rparr>)"

text \<open>The results of a \<open>map\<close> whose callback may raise: the first error, or all values.\<close>

fun collect :: "(error + 'a) list \<Rightarrow> error + 'a list" where
  "collect [] = Inr []"
| "collect (Inl e # rs) = Inl e"
| "collect (Inr x # rs) = (case collect rs of Inl e \<Rightarrow> Inl e | Inr xs \<Rightarrow> Inr (x # xs))"

fun count_arrays :: "'n binding list \<Rightarrow> nat" where
  "count_arrays [] = 0"
| "count_arrays (HandleArray hs # bs) = Suc (count_arrays bs)"
| "count_arrays (Handle h # bs) = count_arrays bs"

text \<open>Pushing handles leaves the number of array entries as it is; replacing the first
  array entry by a handle lowers it. This is what ends the recursion of the constructor.\<close>

lemma count_arrays_append_Handle: "count_arrays (bs @ [Handle h]) = count_arrays bs"
  by (induction bs rule: count_arrays.induct) simp_all

lemma auto_step_count_arrays:
  "auto_step code bs row = Inr bs' \<Longrightarrow> count_arrays bs' = count_arrays bs"
  by (auto simp: auto_step_def count_arrays_append_Handle split: if_splits sum.splits bool.splits)

lemma auto_bind_count_arrays:
  "auto_bind code rows bs = (None, bs') \<Longrightarrow> count_arrays bs' = count_arrays bs"
proof (induction rows arbitrary: bs)
  case Nil
  then show ?case by simp
next
  case (Cons row rows)
  then show ?case
    by (auto split: sum.splits dest: auto_step_count_arrays)
qed

lemma push_noise_count_arrays: "count_arrays (push_noise env code bs) = count_arrays bs"
  by (simp add: push_noise_def count_arrays_append_Handle split: option.splits)

lemma find_array_count_arrays:
  "find_array bs = Some (i, hs) \<Longrightarrow> count_arrays (bs[i := Handle h]) < count_arrays bs"
proof (induction bs arbitrary: i rule: find_array.induct)
  case 1
  then show ?case by simp
next
  case (2 hs' bs)
  then show ?case by simp
next
  case (3 h' bs)
  then show ?case by auto
qed

text \<open>
  \<open>new ComputePass(code, bindings, dispatchSize, entryPoint)\<close>. The auto-bindings and
  the noise buffer are pushed onto \<open>bindings\<close>. If an entry is an array, the
  constructor returns the array obtained by constructing, for each handle of the first
  such entry, a pass from a copy of the list with the handle in the entry's place and
  the handle's \<open>count\<close> as dispatch size. Otherwise it builds the pass. The second
  component of the result is the caller's array as the call leaves it; the copies made
  by \<open>slice()\<close> belong to the inner calls and are dropped with them.
\<close>

function construct ::
  "'n env \<Rightarrow> string \<Rightarrow> 'n binding list \<Rightarrow> size_arg \<Rightarrow> string
     \<Rightarrow> (error + construction) \<times> 'n binding list" where
  "construct env code bindings dispatchSize entryPoint =
     (case auto_bind code (Auto_Bindings env) bindings of
        (Some e, bs) \<Rightarrow> (Inl e, bs)
      | (None, bs1) \<Rightarrow>
          let bs = push_noise env code bs1
          in case find_array bs of
               Some (multipleBufferIndex, multipleBuffer) \<Rightarrow>
                 (case collect
                         (map (\<lambda>buffer.
                                 case handle_count buffer of
                                   Inl e \<Rightarrow> Inl e
                                 | Inr n \<Rightarrow>
                                     fst (construct env code
                                            (bs[multipleBufferIndex := Handle buffer])
                                            (SizeValue n) entryPoint))
                            multipleBuffer) of
                    Inl e \<Rightarrow> (Inl e, bs)
                  | Inr ps \<Rightarrow> (Inr (Passes ps), bs))
             | None \<Rightarrow>
                 (case build_pass env code bs dispatchSize entryPoint of
                    Inl e \<Rightarrow> (Inl e, bs)
                  | Inr p \<Rightarrow> (Inr (Pass p), bs)))"
  by pat_completeness auto
termination
proof (relation "measure (\<lambda>(env, code, bindings, dispatchSize, entryPoint). count_arrays bindings)")
  show "wf (measure (\<lambda>(env, code, bindings, dispatchSize, entryPoint). count_arrays bindings))"
    by simp
next
  fix env :: "'n env" and code bindings and dispatchSize :: size_arg and entryPoint :: string
    and x bs1 bs y multipleBufferIndex multipleBuffer buffer n and x2 :: "error option"
  assume "(x2, bs1) = auto_bind code (Auto_Bindings env) bindings" and "x2 = None"
    and "bs = push_noise env code bs1" and "find_array bs = Some y"
    and "(multipleBufferIndex, multipleBuffer) = y"
  then have "count_arrays (bs[multipleBufferIndex := Handle buffer]) < count_arrays bindings"
    using auto_bind_count_arrays [of code "Auto_Bindings env" bindings bs1]
      push_noise_count_arrays [of env code bs1]
      find_array_count_arrays [of bs multipleBufferIndex multipleBuffer buffer]
    by (metis (no_types, lifting))
  then show "((env, code, bs[multipleBufferIndex := Handle buffer], SizeValue n, entryPoint),
              env, code, bindings, dispatchSize, entryPoint)
             \<in> measure (\<lambda>(env, code, bindings, dispatchSize, entryPoint). count_arrays bindings)"
    by simp
qed

declare construct.simps [simp del]

text \<open>
  The caller's array is an object: the store maps array references to their contents,
  and the constructor is given a reference.
\<close>

definition ComputePass_new ::
  "'n env \<Rightarrow> (nat \<Rightarrow> 'n binding list option) \<Rightarrow> string \<Rightarrow> nat \<Rightarrow> size_arg \<Rightarrow> string
     \<Rightarrow> (error + construction) \<times> (nat \<Rightarrow> 'n binding list option)" where
  "ComputePass_new env store code ref dispatchSize entryPoint =
     (case store ref of
        None \<Rightarrow> (Inl TypeError, store)
      | Some bindings \<Rightarrow>
          (case construct env code bindings dispatchSize entryPoint of
             (result, bindings') \<Rightarrow> (result, store(ref \<mapsto> bindings'))))"

section \<open>Notions used to state the properties of the auto-bindings\<close>

text \<open>
  \<open>whole_word w src\<close>: the text \<open>src\<close> contains \<open>w\<close> with no word character directly
  before or after it. \<open>word_before\<close> and \<open>word_after\<close> read the neighbours of a position.
\<close>

definition whole_word :: "string \<Rightarrow> string \<Rightarrow> bool" where
  "whole_word w src =
     (\<exists>pre post. src = pre @ w @ post \<and> (pre = [] \<or> \<not> is_word (last pre)) \<and>
        (post = [] \<or> \<not> is_word (hd post)))"

definition word_before :: "char option \<Rightarrow> string \<Rightarrow> bool" where
  "word_before prev pre = (case last_char prev pre of None \<Rightarrow> False | Some c \<Rightarrow> is_word c)"

definition word_after :: "string \<Rightarrow> bool" where
  "word_after post = (case post of [] \<Rightarrow> False | c # cs \<Rightarrow> is_word c)"

text \<open>
  \<open>named bs a\<close>: the resource of the table row \<open>a\<close> exists and an entry of \<open>bs\<close> carries
  its name. \<open>finalized\<close> is the binding list as the constructor has it after the
  auto-bindings and the noise buffer, when the auto-binding loop did not raise.
\<close>

definition named :: "'n binding list \<Rightarrow> 'n auto \<Rightarrow> bool" where
  "named bs a = (\<exists>m. auto_name a = Inr m \<and> (\<exists>b \<in> set bs. entry_name b = Inr (Some m)))"

definition finalized :: "'n env \<Rightarrow> string \<Rightarrow> 'n binding list \<Rightarrow> 'n binding list option" where
  "finalized env code bindings =
     (case auto_bind code (Auto_Bindings env) bindings of
        (None, bs) \<Rightarrow> Some (push_noise env code bs)
      | (Some e, bs) \<Rightarrow> None)"

section \<open>An environment for evaluating examples\<close>

text \<open>
  A device with four buffers and two texture views: the pointer buffer (with its
  struct), the clock, two chunk buffers of a struct \<open>Pt\<close>; the output and feedback
  textures. The noise buffer has not been created.
\<close>

definition example_mouse :: "int option buffer" where
  "example_mouse =
     \<lparr>buffer_name = ''mouse'', buffer_data = [Some 0, Some 0, Some 0, Some 0], buffer_size = 16,
      buffer_gpu = 0,
      buffer_struct = Some \<lparr>struct_name = ''mouseStruct'',
        struct_data = [\<lparr>field_name = ''pos'', field_type = type_vec2\<rparr>,
                       \<lparr>field_name = ''button'', field_type = type_f32\<rparr>,
                       \<lparr>field_name = ''FILLER___0'', field_type = type_f32\<rparr>]\<rparr>,
      buffer_isArray = False, buffer_count = None\<rparr>"

definition example_time :: "int option buffer" where
  "example_time =
     \<lparr>buffer_name = ''time'', buffer_data = [Some 0], buffer_size = 4, buffer_gpu = 1,
      buffer_struct = None, buffer_isArray = False, buffer_count = None\<rparr>"

definition example_chunk :: "nat \<Rightarrow> nat \<Rightarrow> int option buffer" where
  "example_chunk gpu n =
     \<lparr>buffer_name = ''pts'', buffer_data = replicate (4 * n) (Some 0), buffer_size = 16 * n,
      buffer_gpu = gpu,
      buffer_struct = Some \<lparr>struct_name = ''Pt'',
        struct_data = [\<lparr>field_name = ''p'', field_type = type_vec4\<rparr>]\<rparr>,
      buffer_isArray = True, buffer_count = Some n\<rparr>"

definition example_env :: "int option env" where
  "example_env =
     \<lparr>device = \<lparr>initialized = True,
                 buffers = [[Some 0, Some 0, Some 0, Some 0], [Some 0],
                            replicate 8 (Some 0), replicate 4 (Some 0), replicate 12 (Some 0)],
                 submitted = [], validation_errors = 0\<rparr>,
      mouseBuffer = Some example_mouse,
      timeBuffer = Some example_time,
      renderTxtr = Some \<lparr>texture_name = ''renderTxtr'', texture_format = ''rgba8unorm'',
                          texture_view = 0\<rparr>,
      feedbackTxtr = Some \<lparr>texture_name = ''feedbackTxtr'', texture_format = ''rgba8unorm'',
                            texture_view = 1\<rparr>,
      noiseBuffer = None,
      ctx_ready = True,
      width_text = Some ''512.00'',
      height_text = Some ''512.00''\<rparr>"

text \<open>
  \<open>calls_noise src\<close>: the text contains \<open>noise\<close>, \<open>noise2\<close> or \<open>noise3\<close>, with no word
  character directly before it, followed by any amount of white space and an opening
  parenthesis. \<open>fn_header name src\<close>: the text contains \<open>fn\<close>, white space, \<open>name\<close>, any
  amount of white space and an opening parenthesis.
\<close>

definition calls_noise :: "string \<Rightarrow> bool" where
  "calls_noise src =
     (\<exists>pre name ws post. src = pre @ name @ ws @ ''('' @ post \<and>
        name \<in> {''noise'', ''noise2'', ''noise3''} \<and>
        (pre = [] \<or> \<not> is_word (last pre)) \<and> (\<forall>c \<in> set ws. is_space c))"

definition fn_header :: "string \<Rightarrow> string \<Rightarrow> bool" where
  "fn_header name src =
     (\<exists>pre ws1 ws2 post. src = pre @ ''fn'' @ ws1 @ name @ ws2 @ ''('' @ post \<and>
        ws1 \<noteq> [] \<and> (\<forall>c \<in> set ws1. is_space c) \<and> (\<forall>c \<in> set ws2. is_space c))"

text \<open>
  \<open>resource_names\<close>: the names of the four well-known resources of the table, where
  they exist. \<open>free_name env bs m\<close>: no entry of the list \<open>bs\<close> carries the name \<open>m\<close>, and
  exactly one of the well-known resources does.
\<close>

definition resource_names :: "'n env \<Rightarrow> string option list" where
  "resource_names env =
     [map_option buffer_name (mouseBuffer env), map_option buffer_name (timeBuffer env),
      map_option texture_name (renderTxtr env), map_option texture_name (feedbackTxtr env)]"

definition free_name :: "'n env \<Rightarrow> 'n binding list \<Rightarrow> string \<Rightarrow> bool" where
  "free_name env bs m =
     (list_all (\<lambda>b. entry_name b \<noteq> Inr (Some m)) bs \<and>
      length (filter (\<lambda>n. n = Some m) (resource_names env)) = 1)"

text \<open>The example environment after the noise buffer has been created.\<close>

definition example_noise :: "int option buffer" where
  "example_noise =
     \<lparr>buffer_name = ''noiseOffset'', buffer_data = [Some 1, Some 2, Some 3], buffer_size = 12,
      buffer_gpu = 5, buffer_struct = None, buffer_isArray = False, buffer_count = None\<rparr>"

definition example_noise_env :: "int option env" where
  "example_noise_env =
     example_env\<lparr>device := (device example_env)\<lparr>buffers :=
                     buffers (device example_env) @ [[Some 1, Some 2, Some 3]]\<rparr>,
                 noiseBuffer := Some example_noise\<rparr>"

text \<open>The bind group entries of the passes a construction returned, pass by pass.\<close>

fun entries_of :: "construction \<Rightarrow> resource list list" where
  "entries_of (Pass p) = [pass_entries p]"
| "entries_of (Passes ps) = concat (map entries_of ps)"

section \<open>Running passes (runPasses)\<close>

text \<open>
  A render pass as \<open>run\<close> uses it: its shader text and the two entries of its bind
  group. What is handed to \<open>runPasses\<close> is a pass, or anything else: \<open>NotAPass\<close> stands
  for a value that is falsy or has no function \<open>run\<close> (an array nested in an inner
  array is such a value).
\<close>

record render_pass =
  rp_code :: string
  rp_entries :: "resource list"

datatype pass_obj = ComputePassObj compute_pass | RenderPassObj render_pass | NotAPass

datatype pass_item = OnePass pass_obj | PassList "pass_obj list"

datatype passes_arg = PassArray "pass_item list" | BarePass pass_obj

text \<open>
  \<open>ComputePass.run(encoder)\<close> records a compute pass on the encoder. The device's
  \<open>dispatchWorkgroups\<close> raises a \<open>TypeError\<close> when its first argument is missing or
  \<open>undefined\<close>. \<open>RenderPass.run(encoder)\<close> asks the context for the current texture
  first, and wraps whatever is raised.
\<close>

definition ComputePass_run :: "compute_pass \<Rightarrow> command list \<Rightarrow> error + command list" where
  "ComputePass_run this encoder =
     (case pass_dispatchSize this of
        Some x # rest \<Rightarrow>
          Inr (encoder @ [BeginComputePass, SetPipeline (pass_code this) (pass_entryPoint this),
                          SetBindGroup 0 (pass_entries this),
                          DispatchWorkgroups (pass_dispatchSize this), EndPass])
      | _ \<Rightarrow> Inl TypeError)"

definition RenderPass_run :: "'n env \<Rightarrow> render_pass \<Rightarrow> command list \<Rightarrow> error + command list" where
  "RenderPass_run env this encoder =
     (if \<not> ctx_ready env then Inl (FailedToRunRenderPass TypeError)
      else Inr (encoder @ [BeginRenderPass, SetPipeline (rp_code this) ''vs, fs'',
                           SetBindGroup 0 (rp_entries this), Draw 6, EndPass]))"

text \<open>The inner \<open>forEach\<close>, the \<open>for ... of\<close> over the passes, and the \<open>for\<close> over the
  repeats, all recording into the same encoder.\<close>

fun encode_list :: "'n env \<Rightarrow> pass_obj list \<Rightarrow> command list \<Rightarrow> error + command list" where
  "encode_list env [] encoder = Inr encoder"
| "encode_list env (p # ps) encoder =
     (case p of
        NotAPass \<Rightarrow> Inl InvalidPassInArray
      | ComputePassObj c \<Rightarrow>
          (case ComputePass_run c encoder of
             Inl e \<Rightarrow> Inl e | Inr encoder' \<Rightarrow> encode_list env ps encoder')
      | RenderPassObj r \<Rightarrow>
          (case RenderPass_run env r encoder of
             Inl e \<Rightarrow> Inl e | Inr encoder' \<Rightarrow> encode_list env ps encoder'))"

fun encode_passes :: "'n env \<Rightarrow> pass_item list \<Rightarrow> command list \<Rightarrow> error + command list" where
  "encode_passes env [] encoder = Inr encoder"
| "encode_passes env (pass # passes) encoder =
     (case (case pass of
              PassList ps \<Rightarrow> encode_list env ps encoder
            | OnePass NotAPass \<Rightarrow> Inl InvalidPass
            | OnePass (ComputePassObj c) \<Rightarrow> ComputePass_run c encoder
            | OnePass (RenderPassObj r) \<Rightarrow> RenderPass_run env r encoder) of
        Inl e \<Rightarrow> Inl e
      | Inr encoder' \<Rightarrow> encode_passes env passes encoder')"

fun encode_repeats ::
  "'n env \<Rightarrow> nat \<Rightarrow> pass_item list \<Rightarrow> command list \<Rightarrow> error + command list" where
  "encode_repeats env 0 passes encoder = Inr encoder"
| "encode_repeats env (Suc n) passes encoder =
     (case encode_passes env passes encoder of
        Inl e \<Rightarrow> Inl e
      | Inr encoder' \<Rightarrow> encode_repeats env n passes encoder')"

text \<open>
  \<open>runPasses(passes, repeats = 1)\<close>: raises without a device; wraps a bare pass in an
  array; records every invocation in one new encoder; submits the finished encoder with
  one call of \<open>queue.submit\<close>. An error raised while recording is wrapped and nothing is
  submitted. \<open>repeats\<close> is an integer; the loop \<open>for (i = 0; i < repeats; i++)\<close> runs
  \<open>nat repeats\<close> times.
\<close>

definition runPasses :: "'n env \<Rightarrow> passes_arg \<Rightarrow> int \<Rightarrow> (error + unit) \<times> 'n device_state" where
  "runPasses env passes repeats =
     (if \<not> initialized (device env) then (Inl (DeviceNotInitialized ''runPasses''), device env)
      else
        let passes' = (case passes of PassArray xs \<Rightarrow> xs | BarePass p \<Rightarrow> [OnePass p])
        in case encode_repeats env (nat repeats) passes' [] of
             Inl e \<Rightarrow> (Inl (FailedToRunPasses e), device env)
           | Inr commandEncoder \<Rightarrow>
               (Inr (), (device env)\<lparr>submitted := submitted (device env) @ [[commandEncoder]]\<rparr>))"

section \<open>Notions used to state the properties of runPasses\<close>

text \<open>
  \<open>runnable\<close>: the pass can record itself (a compute pass has a first dispatch size, a
  render pass has a context). \<open>invocation\<close> is what a runnable pass records.
  \<open>flattened\<close> is the pass list with the inner arrays spread in place.
\<close>

definition runnable :: "'n env \<Rightarrow> pass_obj \<Rightarrow> bool" where
  "runnable env p =
     (case p of
        ComputePassObj c \<Rightarrow> (case pass_dispatchSize c of Some x # rest \<Rightarrow> True | _ \<Rightarrow> False)
      | RenderPassObj r \<Rightarrow> ctx_ready env
      | NotAPass \<Rightarrow> False)"

definition invocation :: "pass_obj \<Rightarrow> command list" where
  "invocation p =
     (case p of
        ComputePassObj c \<Rightarrow>
          [BeginComputePass, SetPipeline (pass_code c) (pass_entryPoint c),
           SetBindGroup 0 (pass_entries c), DispatchWorkgroups (pass_dispatchSize c), EndPass]
      | RenderPassObj r \<Rightarrow>
          [BeginRenderPass, SetPipeline (rp_code r) ''vs, fs'', SetBindGroup 0 (rp_entries r),
           Draw 6, EndPass]
      | NotAPass \<Rightarrow> [])"

definition flattened :: "pass_item list \<Rightarrow> pass_obj list" where
  "flattened passes = concat (map (\<lambda>pass. case pass of OnePass p \<Rightarrow> [p] | PassList ps \<Rightarrow> ps) passes)"

section \<open>The shader source scanner (wgsl.js, class WGSLParser)\<close>

text \<open>
  The parser object is its text and the cursor \<open>position\<close>; every method is modelled as
  a function of the text and the position that returns the new position with its
  result. \<open>peek\<close> reads \<open>this.code[position + offset] || ''\<close>: \<open>None\<close> stands for the empty
  string that a read beyond the end gives. \<open>advance\<close> adds one to the position, also
  beyond the end.
\<close>

definition peek :: "string \<Rightarrow> nat \<Rightarrow> nat \<Rightarrow> char option" where
  "peek code position offset =
     (if position + offset < length code then Some (code ! (position + offset)) else None)"

definition peek_space :: "string \<Rightarrow> nat \<Rightarrow> bool" where
  "peek_space code position = (case peek code position 0 of None \<Rightarrow> False | Some c \<Rightarrow> is_space c)"

definition peek_word :: "string \<Rightarrow> nat \<Rightarrow> bool" where
  "peek_word code position = (case peek code position 0 of None \<Rightarrow> False | Some c \<Rightarrow> is_word c)"

function skipWhitespace :: "string \<Rightarrow> nat \<Rightarrow> nat" where
  "skipWhitespace code position =
     (if position < length code \<and> peek_space code position
      then skipWhitespace code (Suc position) else position)"
  by pat_completeness auto
termination
  by (relation "measure (\<lambda>(code, position). length code - position)") auto

declare skipWhitespace.simps [simp del]

text \<open>The two loops of \<open>skipComment\<close>: to the end of the line, and to the end of a
  block comment (the loop stops one character before the end of the text).\<close>

function skip_line :: "string \<Rightarrow> nat \<Rightarrow> nat" where
  "skip_line code position =
     (if position < length code \<and> peek code position 0 \<noteq> Some (CHR 0x0A)
      then skip_line code (Suc position) else position)"
  by pat_completeness auto
termination
  by (relation "measure (\<lambda>(code, position). length code - position)") auto

declare skip_line.simps [simp del]

function skip_block :: "string \<Rightarrow> nat \<Rightarrow> nat" where
  "skip_block code position =
     (if position < length code - 1
      then
        if peek code position 0 = Some (CHR ''*'') \<and> peek code position 1 = Some (CHR ''/'')
        then position + 2
        else skip_block code (Suc position)
      else position)"
  by pat_completeness auto
termination
  by (relation "measure (\<lambda>(code, position). length code - position)") auto

declare skip_block.simps [simp del]

definition skipComment :: "string \<Rightarrow> nat \<Rightarrow> bool \<times> nat" where
  "skipComment code position =
     (if peek code position 0 = Some (CHR ''/'') \<and> peek code position 1 = Some (CHR ''/'')
      then (True, skip_line code position)
      else if peek code position 0 = Some (CHR ''/'') \<and> peek code position 1 = Some (CHR ''*'')
      then (True, skip_block code (position + 2))
      else (False, position))"

text \<open>The cursor never moves back, and does not move at all from the end of the text
  or beyond. These facts end the loop of \<open>skipWhitespaceAndComments\<close>.\<close>

lemma skipWhitespace_ge: "position \<le> skipWhitespace code position"
proof (induction code position rule: skipWhitespace.induct)
  case (1 code position)
  then show ?case by (subst skipWhitespace.simps) (auto simp: Suc_leD)
qed

lemma skipWhitespace_end: "length code \<le> position \<Longrightarrow> skipWhitespace code position = position"
  by (subst skipWhitespace.simps) simp

lemma skip_line_ge: "position \<le> skip_line code position"
proof (induction code position rule: skip_line.induct)
  case (1 code position)
  then show ?case by (subst skip_line.simps) (auto simp: Suc_leD)
qed

lemma skip_block_ge: "position \<le> skip_block code position"
proof (induction code position rule: skip_block.induct)
  case (1 code position)
  then show ?case by (subst skip_block.simps) (auto simp: Suc_leD)
qed

lemma skipComment_ge: "position \<le> snd (skipComment code position)"
  using skip_line_ge [of position code] skip_block_ge [of "position + 2" code]
  by (auto simp: skipComment_def)

lemma skipComment_end: "length code \<le> position \<Longrightarrow> snd (skipComment code position) = position"
  by (simp add: skipComment_def peek_def)

lemma skip_step_progress:
  assumes "start < snd (skipComment code (skipWhitespace code start))"
  shows "start < length code"
proof (rule ccontr)
  assume "\<not> start < length code"
  then have "length code \<le> start" by simp
  then have "snd (skipComment code (skipWhitespace code start)) = start"
    by (simp add: skipWhitespace_end skipComment_end)
  with assms show False by simp
qed

function skipWhitespaceAndComments :: "string \<Rightarrow> nat \<Rightarrow> nat" where
  "skipWhitespaceAndComments code position =
     (let start = position;
          position' = snd (skipComment code (skipWhitespace code position))
      in if position' > start then skipWhitespaceAndComments code position' else position')"
  by pat_completeness auto
termination
proof (relation "measure (\<lambda>(code, position). length code - position)")
  show "wf (measure (\<lambda>(code, position). length code - position))" by simp
next
  fix code :: string and position start position' :: nat
  assume "start = position" and "position' = snd (skipComment code (skipWhitespace code position))"
    and "start < position'"
  then have "position < length code" "position < position'"
    using skip_step_progress by auto
  then show "((code, position'), code, position) \<in> measure (\<lambda>(code, position). length code - position)"
    by simp
qed

declare skipWhitespaceAndComments.simps [simp del]

text \<open>\<open>readIdentifier\<close>: the loop with its accumulated result.\<close>

function readIdentifier_loop :: "string \<Rightarrow> nat \<Rightarrow> string \<Rightarrow> string \<times> nat" where
  "readIdentifier_loop code position result =
     (if position < length code \<and> peek_word code position
      then readIdentifier_loop code (Suc position) (result @ [code ! position])
      else (result, position))"
  by pat_completeness auto
termination
  by (relation "measure (\<lambda>(code, position, result). length code - position)") auto

declare readIdentifier_loop.simps [simp del]

definition readIdentifier :: "string \<Rightarrow> nat \<Rightarrow> string \<times> nat" where
  "readIdentifier code position = readIdentifier_loop code position []"

text \<open>
  \<open>matchKeyword(keyword)\<close>: after whitespace and comments the keyword's characters must
  follow one by one, and then no identifier character; on failure the position is put
  back to where the call started.
\<close>

fun match_chars :: "string \<Rightarrow> nat \<Rightarrow> string \<Rightarrow> nat option" where
  "match_chars code position [] = Some position"
| "match_chars code position (k # ks) =
     (if peek code position 0 \<noteq> Some k then None else match_chars code (Suc position) ks)"

definition matchKeyword :: "string \<Rightarrow> nat \<Rightarrow> string \<Rightarrow> bool \<times> nat" where
  "matchKeyword code position keyword =
     (let start = position
      in case match_chars code (skipWhitespaceAndComments code position) keyword of
           None \<Rightarrow> (False, start)
         | Some position' \<Rightarrow>
             if peek_word code position' then (False, start) else (True, position'))"

text \<open>
  \<open>findMatchingBrace\<close>. The inner loop skips a string literal (an escape skips two
  characters, possibly beyond the end); the outer loop counts braces. The result is the
  position behind the closing brace, or \<open>None\<close> for \<open>-1\<close>.
\<close>

function skip_string :: "string \<Rightarrow> nat \<Rightarrow> nat" where
  "skip_string code position =
     (if position < length code \<and> peek code position 0 \<noteq> Some (CHR 0x22)
      then skip_string code
             (if peek code position 0 = Some (CHR 0x5C) then position + 2 else position + 1)
      else position)"
  by pat_completeness auto
termination
  by (relation "measure (\<lambda>(code, position). length code - position)") auto

declare skip_string.simps [simp del]

lemma skip_string_ge: "position \<le> skip_string code position"
proof (induction code position rule: skip_string.induct)
  case (1 code position)
  then show ?case by (subst skip_string.simps) (auto split: if_splits)
qed

lemma skipWhitespaceAndComments_ge: "position \<le> skipWhitespaceAndComments code position"
proof (induction code position rule: skipWhitespaceAndComments.induct)
  case (1 code position)
  define position' where "position' = snd (skipComment code (skipWhitespace code position))"
  have le: "position \<le> position'"
    using skipWhitespace_ge [of position code]
      skipComment_ge [of "skipWhitespace code position" code] by (simp add: position'_def)
  show ?case
  proof (cases "position < position'")
    case True
    then have "position' \<le> skipWhitespaceAndComments code position'"
      using 1 [OF refl position'_def] by simp
    with True le show ?thesis
      by (subst skipWhitespaceAndComments.simps) (simp add: Let_def position'_def)
  next
    case False
    with le show ?thesis
      by (subst skipWhitespaceAndComments.simps) (simp add: Let_def position'_def)
  qed
qed

function brace_loop :: "string \<Rightarrow> nat \<Rightarrow> nat \<Rightarrow> nat \<times> nat" where
  "brace_loop code position braceCount =
     (if position < length code \<and> braceCount > 0
      then
        let p = skipWhitespaceAndComments code position
        in if peek code p 0 = Some (CHR ''{'') then brace_loop code (Suc p) (Suc braceCount)
           else if peek code p 0 = Some (CHR ''}'') then brace_loop code (Suc p) (braceCount - 1)
           else if peek code p 0 = Some (CHR 0x22)
           then
             let p1 = skip_string code (Suc p);
                 p2 = (if peek code p1 0 = Some (CHR 0x22) then Suc p1 else p1)
             in brace_loop code p2 braceCount
           else brace_loop code (Suc p) braceCount
      else (braceCount, position))"
  by pat_completeness auto
termination
proof (relation "measure (\<lambda>(code, position, braceCount). length code - position)", goal_cases)
  case 1
  show ?case by simp
next
  case (2 code position braceCount p)
  then show ?case using skipWhitespaceAndComments_ge [of position code] by auto
next
  case (3 code position braceCount p)
  then show ?case using skipWhitespaceAndComments_ge [of position code] by auto
next
  case (4 code position braceCount p p1 p2)
  then have "position < length code" "position \<le> p" "Suc p \<le> p1" "p1 \<le> p2"
    using skipWhitespaceAndComments_ge [of position code] skip_string_ge [of "Suc p" code]
    by (auto split: if_splits)
  then show ?case by simp
next
  case (5 code position braceCount p)
  then show ?case using skipWhitespaceAndComments_ge [of position code] by auto
qed

declare brace_loop.simps [simp del]

definition findMatchingBrace :: "string \<Rightarrow> nat \<Rightarrow> nat option \<times> nat" where
  "findMatchingBrace code position =
     (if peek code position 0 \<noteq> Some (CHR ''{'') then (None, position)
      else
        case brace_loop code (Suc position) 1 of
          (braceCount, position') \<Rightarrow>
            (if braceCount = 0 then Some position' else None, position'))"

text \<open>
  The loops of \<open>parseFunction\<close>: a balanced group of \<open>opening\<close> and \<open>closing\<close> characters
  (the parameters, and the generic part of a return type), and the return type.
\<close>

function group_loop :: "char \<Rightarrow> char \<Rightarrow> string \<Rightarrow> nat \<Rightarrow> nat \<Rightarrow> nat" where
  "group_loop opening closing code position count =
     (if position < length code \<and> count > 0
      then group_loop opening closing code (Suc position)
             (if peek code position 0 = Some opening then Suc count
              else if peek code position 0 = Some closing then count - 1
              else count)
      else position)"
  by pat_completeness auto
termination
  by (relation "measure (\<lambda>(opening, closing, code, position, count). length code - position)") auto

declare group_loop.simps [simp del]

lemma group_loop_ge: "position \<le> group_loop c1 c2 code position n"
proof (induction c1 c2 code position n rule: group_loop.induct)
  case (1 c1 c2 code position n)
  show ?case
  proof (cases "position < length code \<and> n > 0")
    case True
    then have "group_loop c1 c2 code position n =
        group_loop c1 c2 code (Suc position)
          (if peek code position 0 = Some c1 then Suc n
           else if peek code position 0 = Some c2 then n - 1 else n)"
      by (subst group_loop.simps) simp
    with 1 [OF True] show ?thesis by simp
  next
    case False
    then have "group_loop c1 c2 code position n = position"
      by (subst group_loop.simps) auto
    then show ?thesis by simp
  qed
qed

function return_type_loop :: "string \<Rightarrow> nat \<Rightarrow> nat" where
  "return_type_loop code position =
     (if position < length code \<and> peek code position 0 \<noteq> Some (CHR ''{'')
           \<and> \<not> peek_space code position
      then
        if peek code position 0 = Some (CHR ''<'')
        then return_type_loop code (group_loop (CHR ''<'') (CHR ''>'') code (Suc position) 1)
        else return_type_loop code (Suc position)
      else position)"
  by pat_completeness auto
termination
proof (relation "measure (\<lambda>(code, position). length code - position)", goal_cases)
  case 1
  show ?case by simp
next
  case (2 code position)
  then show ?case
    using group_loop_ge [of "Suc position" "CHR ''<''" "CHR ''>''" code 1] by auto
next
  case (3 code position)
  then show ?case by auto
qed

declare return_type_loop.simps [simp del]

text \<open>
  \<open>parseFunction\<close>: the function text, trimmed, with the position behind it; or \<open>None\<close>
  for \<open>null\<close> with the position put back to the start.
\<close>

definition parseFunction :: "string \<Rightarrow> nat \<Rightarrow> string option \<times> nat" where
  "parseFunction code position =
     (let start = position
      in case matchKeyword code position ''fn'' of
           (False, p0) \<Rightarrow> (None, p0)
         | (True, p1) \<Rightarrow>
             (case readIdentifier code (skipWhitespaceAndComments code p1) of
                (name, p2) \<Rightarrow>
                  if name = [] then (None, start)
                  else
                    let p3 = skipWhitespaceAndComments code p2
                    in if peek code p3 0 \<noteq> Some (CHR ''('') then (None, start)
                       else
                         let p4 = group_loop (CHR ''('') (CHR '')'') code (Suc p3) 1;
                             p5 = skipWhitespaceAndComments code p4;
                             p6 = (if peek code p5 0 = Some (CHR ''-'')
                                        \<and> peek code p5 1 = Some (CHR ''>'')
                                   then return_type_loop code
                                          (skipWhitespaceAndComments code (p5 + 2))
                                   else p5);
                             p7 = skipWhitespaceAndComments code p6
                         in case findMatchingBrace code p7 of
                              (None, p8) \<Rightarrow> (None, start)
                            | (Some bodyEnd, p8) \<Rightarrow> (Some (trim (slice code start bodyEnd)), p8)))"

text \<open>The cursor after each step of \<open>parseFunction\<close> is not before the cursor it started
  from; these facts show that the loop of \<open>parse\<close> advances.\<close>

lemma readIdentifier_loop_ge: "position \<le> snd (readIdentifier_loop code position result)"
proof (induction code position result rule: readIdentifier_loop.induct)
  case (1 code position result)
  show ?case
  proof (cases "position < length code \<and> peek_word code position")
    case True
    then have "readIdentifier_loop code position result =
        readIdentifier_loop code (Suc position) (result @ [code ! position])"
      by (subst readIdentifier_loop.simps) simp
    with 1 [OF True] show ?thesis by simp
  next
    case False
    then have "readIdentifier_loop code position result = (result, position)"
      by (subst readIdentifier_loop.simps) auto
    then show ?thesis by simp
  qed
qed

lemma match_chars_ge: "match_chars code position keyword = Some position' \<Longrightarrow> position \<le> position'"
proof (induction keyword arbitrary: position)
  case Nil
  then show ?case by simp
next
  case (Cons k ks)
  from Cons.prems have "match_chars code (Suc position) ks = Some position'"
    by (simp split: if_splits)
  from Cons.IH [OF this] show ?case by simp
qed

lemma matchKeyword_False: "matchKeyword code position keyword = (False, p) \<Longrightarrow> p = position"
  by (auto simp: matchKeyword_def Let_def split: option.splits if_splits)

lemma matchKeyword_True:
  assumes "matchKeyword code position keyword = (True, p)"
  shows "position \<le> p"
proof -
  from assms have "match_chars code (skipWhitespaceAndComments code position) keyword = Some p"
    by (auto simp: matchKeyword_def Let_def split: option.splits if_splits)
  from match_chars_ge [OF this] skipWhitespaceAndComments_ge [of position code]
  show ?thesis by simp
qed

lemma return_type_loop_ge: "position \<le> return_type_loop code position"
proof (induction code position rule: return_type_loop.induct)
  case (1 code position)
  let ?c = "position < length code \<and> peek code position 0 \<noteq> Some (CHR ''{'')
              \<and> \<not> peek_space code position"
  show ?case
  proof (cases ?c)
    case False
    then have "return_type_loop code position = position"
      by (subst return_type_loop.simps) auto
    then show ?thesis by simp
  next
    case True
    show ?thesis
    proof (cases "peek code position 0 = Some (CHR ''<'')")
      case lt: True
      have eq: "return_type_loop code position =
          return_type_loop code (group_loop (CHR ''<'') (CHR ''>'') code (Suc position) 1)"
        using True lt by (subst return_type_loop.simps) simp
      have "Suc position \<le> group_loop (CHR ''<'') (CHR ''>'') code (Suc position) 1"
        by (rule group_loop_ge)
      with 1(1) [OF True lt] eq show ?thesis by simp
    next
      case nlt: False
      have eq: "return_type_loop code position = return_type_loop code (Suc position)"
        using True nlt by (subst return_type_loop.simps) simp
      with 1(2) [OF True nlt] show ?thesis by simp
    qed
  qed
qed

lemma brace_loop_ge: "position \<le> snd (brace_loop code position braceCount)"
proof (induction code position braceCount rule: brace_loop.induct)
  case (1 code position braceCount)
  define p where "p = skipWhitespaceAndComments code position"
  define p1 where "p1 = skip_string code (Suc p)"
  define p2 where "p2 = (if peek code p1 0 = Some (CHR 0x22) then Suc p1 else p1)"
  have le: "position \<le> p" "Suc p \<le> p1" "p1 \<le> p2"
    using skipWhitespaceAndComments_ge [of position code] skip_string_ge [of "Suc p" code]
    by (simp_all add: p_def p1_def p2_def)
  show ?case
  proof (cases "position < length code \<and> braceCount > 0")
    case False
    then have "brace_loop code position braceCount = (braceCount, position)"
      by (subst brace_loop.simps) auto
    then show ?thesis by simp
  next
    case True
    note ih = "1.IH" [OF True p_def]
    consider (opn) "peek code p 0 = Some (CHR ''{'')"
      | (cls) "peek code p 0 \<noteq> Some (CHR ''{'')" "peek code p 0 = Some (CHR ''}'')"
      | (str) "peek code p 0 \<noteq> Some (CHR ''{'')" "peek code p 0 \<noteq> Some (CHR ''}'')"
          "peek code p 0 = Some (CHR 0x22)"
      | (other) "peek code p 0 \<noteq> Some (CHR ''{'')" "peek code p 0 \<noteq> Some (CHR ''}'')"
          "peek code p 0 \<noteq> Some (CHR 0x22)"
      by blast
    then show ?thesis
    proof cases
      case opn
      then have "brace_loop code position braceCount = brace_loop code (Suc p) (Suc braceCount)"
        using True by (subst brace_loop.simps) (simp add: Let_def p_def)
      with ih(1) [OF opn] le show ?thesis by simp
    next
      case cls
      then have "brace_loop code position braceCount = brace_loop code (Suc p) (braceCount - 1)"
        using True by (subst brace_loop.simps) (simp add: Let_def p_def)
      with ih(2) [OF cls] le show ?thesis by simp
    next
      case str
      then have "brace_loop code position braceCount = brace_loop code p2 braceCount"
        using True by (subst brace_loop.simps) (simp add: Let_def p_def p1_def p2_def)
      with ih(3) [OF str p1_def p2_def] le show ?thesis by simp
    next
      case other
      then have "brace_loop code position braceCount = brace_loop code (Suc p) braceCount"
        using True by (subst brace_loop.simps) (simp add: Let_def p_def)
      with ih(4) [OF other] le show ?thesis by simp
    qed
  qed
qed

lemma findMatchingBrace_Some:
  assumes "findMatchingBrace code position = (Some e, p)"
  shows "position < p"
proof -
  obtain n q where bl: "brace_loop code (Suc position) 1 = (n, q)" by force
  with assms have "p = q"
    by (auto simp: findMatchingBrace_def split: if_splits)
  moreover have "Suc position \<le> q"
    using brace_loop_ge [of "Suc position" code 1] bl by simp
  ultimately show ?thesis by simp
qed

lemma parseFunction_None: "parseFunction code position = (None, p) \<Longrightarrow> p = position"
  by (auto simp: parseFunction_def Let_def dest: matchKeyword_False
      split: prod.splits bool.splits option.splits if_splits)

lemma parseFunction_Some:
  assumes "parseFunction code position = (Some f, p)"
  shows "position < p"
proof -
  obtain b p1 where mk: "matchKeyword code position ''fn'' = (b, p1)" by force
  obtain name p2 where ri: "readIdentifier code (skipWhitespaceAndComments code p1) = (name, p2)"
    by force
  define p3 where "p3 = skipWhitespaceAndComments code p2"
  define p4 where "p4 = group_loop (CHR ''('') (CHR '')'') code (Suc p3) 1"
  define p5 where "p5 = skipWhitespaceAndComments code p4"
  define p6 where "p6 = (if peek code p5 0 = Some (CHR ''-'') \<and> peek code p5 1 = Some (CHR ''>'')
     then return_type_loop code (skipWhitespaceAndComments code (p5 + 2)) else p5)"
  define p7 where "p7 = skipWhitespaceAndComments code p6"
  define r where "r = fst (findMatchingBrace code p7)"
  define p8 where "p8 = snd (findMatchingBrace code p7)"
  have fb: "findMatchingBrace code p7 = (r, p8)" by (simp add: r_def p8_def)
  from assms mk have b: "b"
    by (cases b) (simp_all add: parseFunction_def Let_def)
  have pf: "parseFunction code position =
      (if name = [] then (None, position)
       else if peek code p3 0 \<noteq> Some (CHR ''('') then (None, position)
       else case r of None \<Rightarrow> (None, position)
            | Some bodyEnd \<Rightarrow> (Some (trim (slice code position bodyEnd)), p8))"
    using mk b ri
    by (auto simp: parseFunction_def Let_def p3_def p4_def p5_def p6_def p7_def r_def p8_def
        split: prod.splits option.splits)
  with assms have p: "p = p8" and r: "r \<noteq> None"
    by (auto split: if_splits option.splits)
  from r obtain e where "r = Some e" by auto
  with fb have l8: "p7 < p8" using findMatchingBrace_Some by simp
  have "position \<le> p1" using mk b matchKeyword_True by simp
  moreover have "p1 \<le> p2"
    using ri skipWhitespaceAndComments_ge [of p1 code]
      readIdentifier_loop_ge [of "skipWhitespaceAndComments code p1" code "[]"]
    by (simp add: readIdentifier_def)
  moreover have "p2 \<le> p3" by (simp add: p3_def skipWhitespaceAndComments_ge)
  moreover have "p3 \<le> p4"
    using group_loop_ge [of "Suc p3" "CHR ''(''" "CHR '')''" code 1] by (simp add: p4_def)
  moreover have "p4 \<le> p5" by (simp add: p5_def skipWhitespaceAndComments_ge)
  moreover have "p5 \<le> p6"
    using return_type_loop_ge [of "skipWhitespaceAndComments code (p5 + 2)" code]
      skipWhitespaceAndComments_ge [of "p5 + 2" code]
    by (simp add: p6_def)
  moreover have "p6 \<le> p7" by (simp add: p7_def skipWhitespaceAndComments_ge)
  ultimately show ?thesis using l8 p by simp
qed

text \<open>
  \<open>parse\<close>. Its loop is not bounded by a counter, so it is a partial function: \<open>None\<close>
  means that the loop does not end. \<open>functions\<close> and \<open>body\<close> are the two arrays of the
  parser (\<open>result_functions\<close> and \<open>result_body\<close> are the two fields of the object it
  returns); the test \<open>if (fnCode)\<close> takes \<open>null\<close> and the empty string the same way.
\<close>

record scan_result =
  result_functions :: "string list"
  result_body :: string

fun join :: "string \<Rightarrow> string list \<Rightarrow> string" where
  "join sep [] = []"
| "join sep [x] = x"
| "join sep (x # y # ys) = x @ sep @ join sep (y # ys)"

definition truthy :: "string option \<Rightarrow> bool" where
  "truthy s = (case s of None \<Rightarrow> False | Some t \<Rightarrow> t \<noteq> [])"

definition read_line :: "string \<Rightarrow> nat \<Rightarrow> nat" where
  "read_line code position =
     (let q = skip_line code position
      in if peek code q 0 = Some (CHR 0x0A) then Suc q else q)"

partial_function (option) parse_loop ::
  "string \<Rightarrow> nat \<Rightarrow> string list \<Rightarrow> string list \<Rightarrow> (string list \<times> string list) option" where
  "parse_loop code position fs lines =
     (if position < length code
      then
        let p = skipWhitespaceAndComments code position
        in if p \<ge> length code then Some (fs, lines)
           else
             let fnCode = fst (parseFunction code p);
                 p' = snd (parseFunction code p)
             in if truthy fnCode then parse_loop code p' (fs @ [the fnCode]) lines
                else
                  let lineStart = p';
                      q = read_line code p';
                      line = trim (slice code lineStart q)
                  in parse_loop code q fs (if line \<noteq> [] then lines @ [line] else lines)
      else Some (fs, lines))"

declare parse_loop.simps [code]

definition WGSLParser_parse :: "string \<Rightarrow> (error + scan_result) option" where
  "WGSLParser_parse code =
     map_option (\<lambda>(fs, lines). Inr \<lparr>result_functions = fs, result_body = join [CHR 0x0A] lines\<rparr>)
       (parse_loop code 0 [] [])"

text \<open>
  The catch branch of \<open>extractFunctionsAndBody\<close>: the text is split into lines, each
  trimmed, the empty ones dropped; a line that starts with \<open>fn\<close> and a space opens a
  function, and a later line that brings the brace count to zero closes it.
\<close>

fun split_lines :: "string \<Rightarrow> string list" where
  "split_lines [] = [[]]"
| "split_lines (c # cs) =
     (if c = CHR 0x0A then [] # split_lines cs
      else case split_lines cs of [] \<Rightarrow> [[c]] | l # ls \<Rightarrow> (c # l) # ls)"

definition brace_balance :: "string \<Rightarrow> int" where
  "brace_balance line =
     int (length (filter (\<lambda>c. c = CHR ''{'') line)) - int (length (filter (\<lambda>c. c = CHR ''}'') line))"

record fallback_state =
  inFunction :: bool
  braceCount :: int
  currentFunction :: "string list"
  fb_functions :: "string list"
  fb_body :: "string list"

definition fallback_step :: "fallback_state \<Rightarrow> string \<Rightarrow> fallback_state" where
  "fallback_step st line =
     (if prefix ''fn '' line
      then st\<lparr>inFunction := True, currentFunction := [line], braceCount := brace_balance line\<rparr>
      else if inFunction st
      then
        let st1 = st\<lparr>currentFunction := currentFunction st @ [line],
                     braceCount := braceCount st + brace_balance line\<rparr>
        in if braceCount st1 = 0
           then st1\<lparr>fb_functions := fb_functions st1 @ [join [CHR 0x0A] (currentFunction st1)],
                    inFunction := False, currentFunction := []\<rparr>
           else st1
      else st\<lparr>fb_body := fb_body st @ [line]\<rparr>)"

definition fallback_split :: "string \<Rightarrow> scan_result" where
  "fallback_split code =
     (let lines = filter (\<lambda>line. line \<noteq> []) (map trim (split_lines code));
          st = foldl fallback_step
                 \<lparr>inFunction = False, braceCount = 0, currentFunction = [],
                  fb_functions = [], fb_body = []\<rparr> lines
      in \<lparr>result_functions = fb_functions st, result_body = join [CHR 0x0A] (fb_body st)\<rparr>)"

text \<open>
  \<open>extractFunctionsAndBody\<close>: the result of the parser, and the catch branch when the
  parser throws. No statement of the parser throws on a string (reading beyond the end
  of a string gives \<open>undefined\<close>, \<open>slice\<close> and \<open>trim\<close> are total), so \<open>WGSLParser_parse\<close>
  has no path that gives \<open>Inl\<close>.
\<close>

definition extractFunctionsAndBody :: "string \<Rightarrow> scan_result option" where
  "extractFunctionsAndBody code =
     (case WGSLParser_parse code of
        None \<Rightarrow> None
      | Some (Inr r) \<Rightarrow> Some r
      | Some (Inl e) \<Rightarrow> Some (fallback_split code))"

section \<open>The shader assembler (wgsl.js, function wgsl; noise.js, getNoiseCode)\<close>

text \<open>
  \<open>code.replace(/\bwidth\b/g, text)\<close>: the text is scanned from the left; where the word
  stands between two word boundaries the replacement is written and the scan goes on
  behind the word, elsewhere the character is copied. \<open>prev\<close> is the character before
  the scan position in the text that is scanned. The replacement is the text of a
  number, which has no \<open>$\<close>, and is written as it is.
\<close>

function replace_word :: "string \<Rightarrow> string \<Rightarrow> char option \<Rightarrow> string \<Rightarrow> string" where
  "replace_word w r prev [] = []"
| "replace_word w r prev (c # cs) =
     (if w \<noteq> [] \<and> match_atoms [WordBoundary, Lit w, WordBoundary] prev (c # cs)
      then r @ replace_word w r (last_char prev w) (drop (length w) (c # cs))
      else c # replace_word w r (Some c) cs)"
  by pat_completeness auto
termination
  by (relation "measure (\<lambda>(w, r, prev, s). length s)") (auto simp: neq_Nil_conv)

text \<open>The two constants \<open>wgslNoise\<close> and \<open>wgslNoise2\<close> of noise.js, line by line.\<close>

definition wgslNoise :: string where
  "wgslNoise =
     join [CHR 0x0A]
       ['''',
        ''fn rand(n: f32) -> f32 { return fract(sin(438.347 * n / 10000)); }'',
        ''fn noise1(p: f32) -> f32 {'',
        ''  let pVal = p+noiseOffset.x;'',
        ''  let fl = floor(pVal);'',
        ''  let fc = fract(pVal);'',
        ''  return mix(rand(fl), rand(fl + 1.), fc);'',
        ''}'',
        '''']"

definition wgslNoise2 :: string where
  "wgslNoise2 =
     join [CHR 0x0A]
       [''fn mod289(x: vec2<f32>) -> vec2<f32> {return x - floor(x * (1. / 289.)) * 289.;}'',
        ''fn mod289_3(x: vec3<f32>) -> vec3<f32> {return x - floor(x * (1. / 289.)) * 289.;}'',
        ''fn permute3(x: vec3<f32>) -> vec3<f32> {return mod289_3(((x * 34.) + 1.) * x);}'',
        ''fn noise2(v: vec2<f32>) -> f32 {'',
        ''  let v2 = v + noiseOffset.xy;'',
        ''  let C = vec4('',
        ''      0.211324865405187, // (3.0-sqrt(3.0))/6.0'',
        ''      0.366025403784439, // 0.5*(sqrt(3.0)-1.0)'',
        ''      -0.577350269189626, // -1.0 + 2.0 * C.x'',
        ''      0.024390243902439 // 1.0 / 41.0'',
        ''  );'',
        ''  var i = floor(v2 + dot(v2, C.yy));'',
        ''  let x0 = v2 - i + dot(i, C.xx);'',
        ''  var i1 = select(vec2(0., 1.), vec2(1., 0.), x0.x > x0.y);'',
        ''  var x12 = x0.xyxy + C.xxzz;'',
        ''  x12.x = x12.x - i1.x;'',
        ''  x12.y = x12.y - i1.y;'',
        ''  i = mod289(i); // Avoid truncation effects in permutation'',
        ''  var p = permute3(permute3(i.y + vec3(0., i1.y, 1.)) + i.x + vec3(0., i1.x, 1.));'',
        ''  var m = max(0.5 - vec3(dot(x0, x0), dot(x12.xy, x12.xy), dot(x12.zw, x12.zw)), vec3(0.));'',
        ''  m *= m;'',
        ''  m *= m;'',
        ''  let x = 2. * fract(p * C.www) - 1.;'',
        ''  let h = abs(x) - 0.5;'',
        ''  let ox = floor(x + 0.5);'',
        ''  let a0 = x - ox;'',
        ''  m *= 1.79284291400159 - 0.85373472095314 * (a0 * a0 + h * h);'',
        ''  let g = vec3(a0.x * x0.x + h.x * x0.y, a0.yz * x12.xz + h.yz * x12.yw);'',
        ''  return 130. * dot(m, g);'',
        ''}'']"

text \<open>
  \<open>getNoiseCode()\<close>: creates the noise buffer when there is none, from three random
  numbers (\<open>rnd\<close>, each already multiplied by 1000), which fails without a device; gives
  the two constants in a template of three indented lines (\<open>noise_code\<close>).
\<close>

definition noise_code :: string where
  "noise_code =
     [CHR 0x0A] @ ''    '' @ wgslNoise @ [CHR 0x0A] @ ''    '' @ wgslNoise2 @ [CHR 0x0A] @ ''    ''"

definition getNoiseCode ::
  "'n number_ops \<Rightarrow> 'n env \<Rightarrow> 'n list \<Rightarrow> (error + string) \<times> 'n env" where
  "getNoiseCode ops env rnd =
     (case noiseBuffer env of
        Some b \<Rightarrow> (Inr noise_code, env)
      | None \<Rightarrow>
          (case Buffer_new ops (device env) ''noiseOffset'' (ArrayData (map Num rnd)) of
             (Inl e, dev) \<Rightarrow> (Inl e, env\<lparr>device := dev\<rparr>)
           | (Inr b, dev) \<Rightarrow> (Inr noise_code, env\<lparr>device := dev, noiseBuffer := Some b\<rparr>)))"

text \<open>The test that decides whether the noise functions are put in front of the text.\<close>

definition needs_noise :: "string \<Rightarrow> bool" where
  "needs_noise code =
     (regex_test re_noise_call code \<and>
      \<not> regex_test (re_fn ''noise'') code \<and> \<not> regex_test (re_fn ''noise2'') code \<and>
      \<not> regex_test (re_fn ''noise3'') code)"

text \<open>The assembly of the entry point around the loose lines, behind the functions.\<close>

definition indent :: "string \<Rightarrow> string" where
  "indent text =
     join [CHR 0x0A] (map (\<lambda>line. if trim line \<noteq> [] then ''  '' @ line else line) (split_lines text))"

definition wrap_main :: "scan_result \<Rightarrow> string" where
  "wrap_main r =
     (if result_functions r \<noteq> []
      then join [CHR 0x0A, CHR 0x0A] (result_functions r) @ [CHR 0x0A, CHR 0x0A] else [])
     @ ''@compute @workgroup_size(1)'' @ [CHR 0x0A]
     @ ''fn main(@builtin(global_invocation_id) id: vec3<u32>) {'' @ [CHR 0x0A]
     @ (if result_body r \<noteq> [] then indent (result_body r) @ [CHR 0x0A] else [])
     @ ''}''"

text \<open>
  \<open>wgsl\<close>, applied to the rendered text of the template (\<open>String.raw\<close> of its parts):
  the two replacements (\<open>width.toFixed\<close> raises while \<open>width\<close> is unset), the noise
  functions, \<open>trim\<close>, and then either the text as it is, when it has an entry point, or
  the entry point built around what the scanner returns. The result is \<open>None\<close> when the
  call does not return.
\<close>

definition substitute_size :: "string \<Rightarrow> string \<Rightarrow> string \<Rightarrow> string" where
  "substitute_size w h code =
     replace_word ''height'' h None (replace_word ''width'' w None code)"

definition inject_noise ::
  "'n number_ops \<Rightarrow> 'n env \<Rightarrow> 'n list \<Rightarrow> string \<Rightarrow> (error + string) \<times> 'n env" where
  "inject_noise ops env rnd code =
     (if needs_noise code
      then case getNoiseCode ops env rnd of
             (Inl e, env') \<Rightarrow> (Inl e, env')
           | (Inr noise, env') \<Rightarrow> (Inr (noise @ [CHR 0x0A, CHR 0x0A] @ code), env')
      else (Inr code, env))"

definition wgsl ::
  "'n number_ops \<Rightarrow> 'n env \<Rightarrow> 'n list \<Rightarrow> string \<Rightarrow> ((error + string) \<times> 'n env) option" where
  "wgsl ops env rnd code =
     (case (width_text env, height_text env) of
        (Some w, Some h) \<Rightarrow>
          (case inject_noise ops env rnd (substitute_size w h code) of
             (Inl e, env') \<Rightarrow> Some (Inl e, env')
           | (Inr code3, env') \<Rightarrow>
               let code4 = trim code3
               in if regex_test (re_fn ''main'') code4 then Some (Inr code4, env')
                  else case extractFunctionsAndBody code4 of
                         None \<Rightarrow> None
                       | Some r \<Rightarrow> Some (Inr (wrap_main r), env'))
      | _ \<Rightarrow> Some (Inl TypeError, env))"

section \<open>Verification: the padding of a struct descriptor\<close>

lemma foldl_add_sum_list:
  "foldl (\<lambda>acc cur. acc + g cur) (a::nat) xs = a + sum_list (map g xs)"
  by (induction xs arbitrary: a) auto

lemma byteSize_sum_list:
  "byteSize S = sum_list (map (\<lambda>f. type_size (field_type f)) (struct_data S))"
  by (simp add: byteSize_def foldl_add_sum_list)

lemma type_size_div4: "4 * (type_size t div 4) = type_size t"
  by (cases t) auto

lemma byteSize_div4: "4 * (byteSize S div 4) = byteSize S"
proof -
  have "4 dvd sum_list (map (\<lambda>f. type_size (field_type f)) xs)" for xs :: "field list"
  proof (induction xs)
    case Nil show ?case by simp
  next
    case (Cons f fs)
    have "4 dvd type_size (field_type f)" by (cases "field_type f") auto
    with Cons show ?case by simp
  qed
  then show ?thesis by (simp add: byteSize_sum_list)
qed

lemma byteSize_FILLER:
  "byteSize \<lparr>struct_name = n, struct_data = data @ map FILLER [0 ..< k]\<rparr>
     = byteSize \<lparr>struct_name = n, struct_data = data\<rparr> + 4 * k"
  by (simp add: byteSize_sum_list FILLER_def comp_def sum_list_triv)

lemma string_of_nat_digit: "n < 10 \<Longrightarrow> string_of_nat n = [digit_char n]"
  by (simp add: string_of_nat.simps)

lemma digit_char_inj: "i < 10 \<Longrightarrow> j < 10 \<Longrightarrow> digit_char i = digit_char j \<Longrightarrow> i = j"
  by (simp add: digit_char_def char_of_eq_iff take_bit_eq_mod)

lemma FILLER_names_distinct:
  assumes "k \<le> 10"
  shows "distinct (map (\<lambda>i. field_name (FILLER i)) [0 ..< k])"
proof -
  have "inj_on (\<lambda>i. field_name (FILLER i)) (set [0 ..< k])"
    using assms by (auto simp: inj_on_def FILLER_def string_of_nat_digit intro: digit_char_inj)
  then show ?thesis by (simp add: distinct_map)
qed

text \<open>
  Claim C8, as the code has it. A struct that the constructor returns has a byte size
  divisible by 16. Its field list is the caller's list followed by \<open>k\<close> filler fields
  \<open>FILLER___0\<close>, \<open>FILLER___1\<close>, ... of type \<open>f32\<close>, where \<open>k\<close> is \<open>4 - floatSize % 4\<close> when
  the caller's fields give \<open>floatSize % 4 != 0\<close> and 0 otherwise. The filler names differ
  from each other. \<open>FILLER___\<close> is an ordinary identifier prefix and the constructor
  checks no name, so the fillers are disjoint from the caller's field names only when no
  caller field name starts with \<open>FILLER___\<close>.
\<close>

theorem Struct_new_padding:
  assumes "Struct_new name data = Inr S"
  shows "byteSize S mod 16 = 0 \<and>
    (\<exists>k. struct_data S = data @ map FILLER [0 ..< k] \<and>
         k = (let n = floatSize \<lparr>struct_name = name, struct_data = data\<rparr>
              in if n mod 4 \<noteq> 0 then 4 - n mod 4 else 0) \<and>
         distinct (map (\<lambda>i. field_name (FILLER i)) [0 ..< k]) \<and>
         ((\<forall>f \<in> set data. \<not> prefix ''FILLER___'' (field_name f)) \<longrightarrow>
            set (map field_name data) \<inter> set (map (\<lambda>i. field_name (FILLER i)) [0 ..< k]) = {}))"
proof -
  define this where "this = \<lparr>struct_name = name, struct_data = data\<rparr>"
  define n where "n = floatSize this"
  define k where "k = (if n mod 4 \<noteq> 0 then 4 - n mod 4 else 0)"
  have S: "S = \<lparr>struct_name = name, struct_data = data @ map FILLER [0 ..< k]\<rparr>"
    using assms unfolding Struct_new_def k_def n_def this_def
    by (auto simp: Let_def split: if_splits)
  have bs: "byteSize this = 4 * n"
    unfolding n_def floatSize_def by (simp add: byteSize_div4)
  have "byteSize S = 4 * n + 4 * k"
    unfolding S using byteSize_FILLER [of name data k] bs by (simp add: this_def)
  moreover have "(n + k) mod 4 = 0"
    unfolding k_def by presburger
  ultimately have size: "byteSize S mod 16 = 0"
    by presburger
  have "k \<le> 10" unfolding k_def by arith
  then have dist: "distinct (map (\<lambda>i. field_name (FILLER i)) [0 ..< k])"
    by (rule FILLER_names_distinct)
  have disj: "set (map field_name data) \<inter> set (map (\<lambda>i. field_name (FILLER i)) [0 ..< k]) = {}"
    if "\<forall>f \<in> set data. \<not> prefix ''FILLER___'' (field_name f)"
    using that by (fastforce simp: FILLER_def)
  have "k = (let n = floatSize \<lparr>struct_name = name, struct_data = data\<rparr>
              in if n mod 4 \<noteq> 0 then 4 - n mod 4 else 0)"
    by (simp add: k_def n_def this_def Let_def)
  with S size dist disj show ?thesis by auto
qed

theorem Struct_new_padding_witness:
  "Struct_new ''mouseStruct''
       [\<lparr>field_name = ''pos'', field_type = type_vec2\<rparr>,
        \<lparr>field_name = ''button'', field_type = type_f32\<rparr>]
     = Inr \<lparr>struct_name = ''mouseStruct'',
            struct_data =
              [\<lparr>field_name = ''pos'', field_type = type_vec2\<rparr>,
               \<lparr>field_name = ''button'', field_type = type_f32\<rparr>,
               \<lparr>field_name = ''FILLER___0'', field_type = type_f32\<rparr>]\<rparr>
   \<and> byteSize \<lparr>struct_name = ''mouseStruct'',
            struct_data =
              [\<lparr>field_name = ''pos'', field_type = type_vec2\<rparr>,
               \<lparr>field_name = ''button'', field_type = type_f32\<rparr>,
               \<lparr>field_name = ''FILLER___0'', field_type = type_f32\<rparr>]\<rparr> mod 16 = 0"
proof -
  have h: "Struct_new ''mouseStruct''
       [\<lparr>field_name = ''pos'', field_type = type_vec2\<rparr>,
        \<lparr>field_name = ''button'', field_type = type_f32\<rparr>]
     = Inr \<lparr>struct_name = ''mouseStruct'',
            struct_data =
              [\<lparr>field_name = ''pos'', field_type = type_vec2\<rparr>,
               \<lparr>field_name = ''button'', field_type = type_f32\<rparr>,
               \<lparr>field_name = ''FILLER___0'', field_type = type_f32\<rparr>]\<rparr>"
    by code_simp
  from Struct_new_padding [OF h] h show ?thesis by blast
qed

text \<open>
  The part of C8 that fails: the filler prefix is not reserved. A caller's field named
  \<open>FILLER___0\<close> is accepted, and the first filler takes the same name.
\<close>

theorem Struct_new_filler_collision:
  "Struct_new ''S'' [\<lparr>field_name = ''FILLER___0'', field_type = type_f32\<rparr>]
     = Inr \<lparr>struct_name = ''S'',
            struct_data =
              [\<lparr>field_name = ''FILLER___0'', field_type = type_f32\<rparr>,
               \<lparr>field_name = ''FILLER___0'', field_type = type_f32\<rparr>,
               \<lparr>field_name = ''FILLER___1'', field_type = type_f32\<rparr>,
               \<lparr>field_name = ''FILLER___2'', field_type = type_f32\<rparr>]\<rparr>"
  by code_simp

section \<open>Verification: packing and unpacking records\<close>

definition floats :: "field list \<Rightarrow> nat" where
  "floats fs = sum_list (map (\<lambda>f. type_size (field_type f) div 4) fs)"

lemma floats_simps [simp]:
  "floats [] = 0" "floats (f # fs) = type_size (field_type f) div 4 + floats fs"
  by (simp_all add: floats_def)

lemma floatSize_floats: "floatSize S = floats (struct_data S)"
proof -
  have "sum_list (map (\<lambda>f. type_size (field_type f)) fs) = 4 * floats fs" for fs
    by (induction fs) (simp_all add: type_size_div4 algebra_simps)
  then show ?thesis by (simp add: floatSize_def byteSize_sum_list)
qed

lemma type_toFloat32Array_length:
  "type_toFloat32Array ops t v = Inr xs \<Longrightarrow> length xs = type_size t div 4"
  by (cases t; cases v) (auto simp: new_Float32Array_def split: if_splits)

lemma packed_length:
  "field_accepted ops R f \<Longrightarrow> length (packed ops R f) = type_size (field_type f) div 4"
  by (auto simp: field_accepted_def packed_def isl_def type_toFloat32Array_length
      split: sum.splits)

lemma pack_fields_ok:
  assumes "\<forall>f \<in> set fs. field_accepted ops R f" and "offset + floats fs \<le> length arr"
  shows "pack_fields ops fs R i arr offset =
           Inr (take offset arr @ concat (map (packed ops R) fs) @ drop (offset + floats fs) arr,
                offset + floats fs)"
  using assms
proof (induction fs arbitrary: arr offset)
  case Nil
  then show ?case by simp
next
  case (Cons f fs)
  let ?n = "type_size (field_type f) div 4"
  let ?xs = "packed ops R f"
  have acc: "field_accepted ops R f" using Cons.prems by simp
  then have len: "length ?xs = ?n" by (rule packed_length)
  from acc have v: "get_prop R (field_name f) \<noteq> Undefined"
    and enc: "type_toFloat32Array ops (field_type f) (get_prop R (field_name f)) = Inr ?xs"
    by (auto simp: field_accepted_def packed_def isl_def split: sum.splits)
  let ?arr' = "take offset arr @ ?xs @ drop (offset + ?n) arr"
  have fits: "offset + ?n + floats fs \<le> length arr" using Cons.prems by simp
  then have set: "f32_set arr ?xs offset = Inr ?arr'"
    by (simp add: f32_set_def len)
  have len': "length ?arr' = length arr" using fits by (simp add: len)
  have IH: "pack_fields ops fs R i ?arr' (offset + ?n) =
      Inr (take (offset + ?n) ?arr' @ concat (map (packed ops R) fs)
             @ drop (offset + ?n + floats fs) ?arr', offset + ?n + floats fs)"
    using Cons.prems fits by (intro Cons.IH) (simp_all only: len' list.set_intros ball_simps set_simps, auto)
  have t: "take (offset + ?n) ?arr' = take offset arr @ ?xs"
    using fits by (simp add: len)
  have d: "drop (offset + ?n + floats fs) ?arr' = drop (offset + ?n + floats fs) arr"
    using fits by (simp add: len ac_simps)
  show ?case
    using v enc set IH t d by (simp add: Let_def add.assoc)
qed












definition unpacked ::
  "'n number_ops \<Rightarrow> (string \<times> 'n jsval) list \<Rightarrow> (string \<times> 'n jsval) list \<Rightarrow> field list
     \<Rightarrow> (string \<times> 'n jsval) list" where
  "unpacked ops R acc fs =
     foldl (\<lambda>a f. set_prop a (field_name f) (rounded ops R f)) acc fs"

lemma unpacked_simps [simp]:
  "unpacked ops R acc [] = acc"
  "unpacked ops R acc (f # fs) =
     unpacked ops R (set_prop acc (field_name f) (rounded ops R f)) fs"
  by (simp_all add: unpacked_def)

















lemma packed_concat_length:
  "\<forall>f \<in> set fs. field_accepted ops R f \<Longrightarrow> length (concat (map (packed ops R) fs)) = floats fs"
  by (induction fs) (simp_all add: packed_length)






section \<open>Verification: updating a buffer\<close>

lemma float_data_cases:
  assumes "initialized dev"
  shows "Buffer_update ops dev this (Float32Data xs) =
           (Inr (this\<lparr>buffer_data := xs\<rparr>), writeBuffer dev (buffer_gpu this) xs)"
    and "Buffer_update ops dev this (ArrayData vs) =
           (Inr (this\<lparr>buffer_data := new_Float32Array ops vs\<rparr>),
            writeBuffer dev (buffer_gpu this) (new_Float32Array ops vs))"
  using assms by (simp_all add: Buffer_update_def Let_def)

lemma writeBuffer_frame:
  "map length (buffers (writeBuffer dev b xs)) = map length (buffers dev) \<and>
   submitted (writeBuffer dev b xs) = submitted dev \<and>
   initialized (writeBuffer dev b xs) = initialized dev"
  by (auto simp: writeBuffer_def map_update intro!: nth_equalityI simp: nth_list_update)

lemma writeBuffer_fits:
  "b < length (buffers dev) \<Longrightarrow> length xs \<le> length (buffers dev ! b) \<Longrightarrow>
     buffers (writeBuffer dev b xs) ! b = xs @ drop (length xs) (buffers dev ! b) \<and>
     validation_errors (writeBuffer dev b xs) = validation_errors dev"
  by (simp add: writeBuffer_def)

text \<open>
  Claim C9, as the code has it. With a device, \<open>update\<close> accepts an array of values or a
  \<open>Float32Array\<close> of any length (an array is converted to float32; records are not
  packed here). It succeeds, keeps the data in the handle, and leaves the handle's size
  and device buffer as they were; no device buffer is created or changes its length and
  nothing is submitted. Data no longer than the allocation overwrites the front of the
  allocation and the rest stays. No length is compared.
\<close>

theorem Buffer_update_in_place:
  assumes "initialized dev"
    and "data = Float32Data xs \<or> (\<exists>vs. data = ArrayData vs \<and> xs = new_Float32Array ops vs)"
  shows "\<exists>dev'. Buffer_update ops dev this data = (Inr (this\<lparr>buffer_data := xs\<rparr>), dev') \<and>
           map length (buffers dev') = map length (buffers dev) \<and>
           submitted dev' = submitted dev \<and>
           (buffer_gpu this < length (buffers dev) \<and>
            length xs \<le> length (buffers dev ! buffer_gpu this) \<longrightarrow>
              buffers dev' ! buffer_gpu this = xs @ drop (length xs) (buffers dev ! buffer_gpu this) \<and>
              validation_errors dev' = validation_errors dev)"
proof -
  have "Buffer_update ops dev this data =
          (Inr (this\<lparr>buffer_data := xs\<rparr>), writeBuffer dev (buffer_gpu this) xs)"
    using assms(2) float_data_cases [OF assms(1)] by auto
  then show ?thesis
    using writeBuffer_frame [of dev "buffer_gpu this" xs] writeBuffer_fits [of "buffer_gpu this" dev xs]
    by auto
qed

theorem Buffer_update_in_place_witness:
  "initialized \<lparr>initialized = True, buffers = [[Some 0, Some 0, Some 0, Some 0]], submitted = [],
       validation_errors = 0\<rparr>
   \<and> (\<exists>dev'. Buffer_update example_ops
      \<lparr>initialized = True, buffers = [[Some 0, Some 0, Some 0, Some 0]], submitted = [],
       validation_errors = 0\<rparr>
      \<lparr>buffer_name = ''mouse'', buffer_data = [Some 0, Some 0, Some 0, Some 0], buffer_size = 16,
       buffer_gpu = 0, buffer_struct = None, buffer_isArray = False, buffer_count = None\<rparr>
      (Float32Data [Some 5, Some 6, Some 1, Some 0])
     = (Inr \<lparr>buffer_name = ''mouse'', buffer_data = [Some 5, Some 6, Some 1, Some 0],
            buffer_size = 16, buffer_gpu = 0, buffer_struct = None, buffer_isArray = False,
            buffer_count = None\<rparr>, dev')
     \<and> buffers dev' ! 0 = [Some 5, Some 6, Some 1, Some 0])"
proof -
  let ?dev = "\<lparr>initialized = True, buffers = [[Some 0, Some 0, Some 0, Some (0::int)]],
       submitted = [], validation_errors = 0\<rparr>"
  let ?b = "\<lparr>buffer_name = ''mouse'', buffer_data = [Some 0, Some 0, Some 0, Some (0::int)],
       buffer_size = 16, buffer_gpu = 0, buffer_struct = None, buffer_isArray = False,
       buffer_count = None\<rparr>"
  let ?xs = "[Some 5, Some 6, Some 1, Some (0::int)]"
  have h1: "initialized ?dev" by simp
  have h2: "Float32Data ?xs = Float32Data ?xs \<or>
      (\<exists>vs. Float32Data ?xs = ArrayData vs \<and> ?xs = new_Float32Array example_ops vs)"
    by simp
  from Buffer_update_in_place [OF h1 h2, of ?b] h1 show ?thesis by auto
qed

text \<open>
  Where C9 fails as stated: a buffer of four floats is updated with three. The call
  succeeds, the handle keeps the three numbers and its size of 16 bytes, and the device
  buffer keeps its fourth number. The library's own mouse handler updates its 16-byte
  buffer this way.
\<close>

theorem Buffer_update_shorter_data:
  "Buffer_update example_ops
      \<lparr>initialized = True, buffers = [[Some 0, Some 0, Some 0, Some 0]], submitted = [],
       validation_errors = 0\<rparr>
      \<lparr>buffer_name = ''mouse'', buffer_data = [Some 0, Some 0, Some 0, Some 0], buffer_size = 16,
       buffer_gpu = 0, buffer_struct = None, buffer_isArray = False, buffer_count = None\<rparr>
      (Float32Data [Some 5, Some 6, Some 1])
   = (Inr \<lparr>buffer_name = ''mouse'', buffer_data = [Some 5, Some 6, Some 1], buffer_size = 16,
       buffer_gpu = 0, buffer_struct = None, buffer_isArray = False, buffer_count = None\<rparr>,
      \<lparr>initialized = True, buffers = [[Some 5, Some 6, Some 1, Some 0]], submitted = [],
       validation_errors = 0\<rparr>)"
  by (simp add: Buffer_update_def writeBuffer_def)

section \<open>Verification: buffers from arrays of records\<close>

lemma pack_vals_ok:
  assumes "\<forall>v \<in> set vs. record_matches ops S v"
    and "offset + floats (struct_data S) * length vs \<le> length arr"
  shows "\<exists>arr'. pack_vals ops (struct_data S) vs i arr offset =
                  Inr (arr', offset + floats (struct_data S) * length vs) \<and>
               length arr' = length arr"
  using assms
proof (induction vs arbitrary: i arr offset)
  case Nil
  then show ?case by simp
next
  case (Cons v vs)
  let ?n = "floats (struct_data S)"
  from Cons.prems obtain R where v: "v = Obj R"
    and acc: "\<forall>f \<in> set (struct_data S). field_accepted ops R f"
    by (auto simp: record_matches_def list_all_iff split: jsval.splits)
  let ?arr' = "take offset arr @ concat (map (packed ops R) (struct_data S)) @ drop (offset + ?n) arr"
  have fits: "offset + ?n \<le> length arr" using Cons.prems by simp
  have fields: "pack_fields ops (struct_data S) R i arr offset = Inr (?arr', offset + ?n)"
    using acc fits by (rule pack_fields_ok)
  have len: "length ?arr' = length arr"
    using fits by (simp add: packed_concat_length [OF acc])
  have "\<exists>arr''. pack_vals ops (struct_data S) vs (Suc i) ?arr' (offset + ?n) =
                  Inr (arr'', (offset + ?n) + ?n * length vs) \<and> length arr'' = length ?arr'"
    using Cons.prems by (intro Cons.IH) (simp_all only: len, simp_all add: algebra_simps)
  then show ?case
    using v fields len by (auto simp: algebra_simps)
qed

lemma toFloat32Array_array_ok:
  assumes "\<forall>v \<in> set vs. record_matches ops S v"
  shows "\<exists>arr. toFloat32Array ops S (ValueArray vs) = Inr arr \<and>
               length arr = floatSize S * length vs"
proof -
  let ?arr = "replicate (floatSize S * length vs) (num_zero ops)"
  have "\<exists>arr'. pack_vals ops (struct_data S) vs 0 ?arr 0 =
                  Inr (arr', 0 + floats (struct_data S) * length vs) \<and>
               length arr' = length ?arr"
    using assms by (intro pack_vals_ok) (simp_all add: floatSize_floats)
  then show ?thesis
    by (auto simp: toFloat32Array_def pack_array_def)
qed

lemma Buffer_new_Float32Data:
  "initialized dev \<Longrightarrow>
     Buffer_new ops dev name (Float32Data xs) =
       (Inr \<lparr>buffer_name = name, buffer_data = xs, buffer_size = 4 * length xs,
             buffer_gpu = length (buffers dev), buffer_struct = None,
             buffer_isArray = False, buffer_count = None\<rparr>,
        dev\<lparr>buffers := buffers dev @ [xs]\<rparr>)"
  by (simp add: Buffer_new_def)

lemma chunk_loop_ok:
  assumes "initialized dev" and "\<forall>v \<in> set vals. record_matches ops S v"
  shows "\<exists>bs dev'. chunk_loop ops dev S name vals i acc = (Inr (acc @ bs), dev') \<and>
           list_all2 (chunk_buffer ops S name) bs (consecutive_chunks 65000 (drop i vals))"
  using assms(1)
proof (induction "length vals - i" arbitrary: i dev acc rule: less_induct)
  case less
  show ?case
  proof (cases "i < length vals")
    case False
    then show ?thesis
      by (simp add: chunk_loop.simps [of _ _ _ _ vals i] consecutive_chunks.simps [of _ "[]"])
  next
    case True
    let ?c = "slice vals i (i + 65000)"
    have c: "?c = take 65000 (drop i vals)" by (simp add: slice_def)
    have "\<forall>v \<in> set ?c. record_matches ops S v"
      using assms(2) unfolding c by (meson in_set_dropD in_set_takeD)
    then obtain arr where arr: "toFloat32Array ops S (ValueArray ?c) = Inr arr"
      using toFloat32Array_array_ok by blast
    let ?b = "\<lparr>buffer_name = name, buffer_data = arr, buffer_size = 4 * length arr,
             buffer_gpu = length (buffers dev), buffer_struct = Some S,
             buffer_isArray = True, buffer_count = Some (length ?c)\<rparr>"
    let ?dev = "dev\<lparr>buffers := buffers dev @ [arr]\<rparr>"
    have step: "chunk_loop ops dev S name vals i acc =
        chunk_loop ops ?dev S name vals (i + 65000) (acc @ [?b])"
      using True arr less.prems
      by (subst chunk_loop.simps) (simp add: Let_def Buffer_new_Float32Data)
    have "length vals - (i + 65000) < length vals - i" using True by simp
    moreover have "initialized ?dev" using less.prems by simp
    ultimately obtain bs dev' where
      rec: "chunk_loop ops ?dev S name vals (i + 65000) (acc @ [?b]) = (Inr ((acc @ [?b]) @ bs), dev')"
      and all: "list_all2 (chunk_buffer ops S name) bs (consecutive_chunks 65000 (drop (i + 65000) vals))"
      using less.hyps by blast
    have "consecutive_chunks 65000 (drop i vals) =
            ?c # consecutive_chunks 65000 (drop (i + 65000) vals)"
      using True by (subst consecutive_chunks.simps) (simp add: c add.commute)
    moreover have "chunk_buffer ops S name ?b ?c"
      using arr by (simp add: chunk_buffer_def)
    ultimately have "list_all2 (chunk_buffer ops S name) (?b # bs) (consecutive_chunks 65000 (drop i vals))"
      using all by simp
    with step rec show ?thesis by (intro exI [of _ "?b # bs"] exI [of _ dev']) simp
  qed
qed

lemma consecutive_chunks_Nil: "consecutive_chunks n [] = []"
  by (simp add: consecutive_chunks.simps)

lemma consecutive_chunks_Cons:
  "0 < n \<Longrightarrow> xs \<noteq> [] \<Longrightarrow>
     consecutive_chunks n xs = take n xs # consecutive_chunks n (drop n xs)"
  by (subst consecutive_chunks.simps) simp

lemma ceil_div_step:
  fixes m n :: nat
  assumes "0 < n" and "0 < m"
  shows "Suc ((m - n + (n - 1)) div n) = (m + (n - 1)) div n"
proof (cases "n \<le> m")
  case True
  define a where "a = m - n + (n - 1)"
  have "m + (n - 1) = a + n" using True by (simp add: a_def)
  moreover have "(a + n) div n = Suc (a div n)" using assms(1) div_add_self2 [of n a] by auto
  ultimately show ?thesis by (simp add: a_def)
next
  case False
  then have a: "m - n + (n - 1) < n" using assms by simp
  have b: "n * 1 \<le> m + (n - 1)" "m + (n - 1) < n * Suc 1" using False assms by simp_all
  have "(m - n + (n - 1)) div n = 0" using a by simp
  moreover have "(m + (n - 1)) div n = 1" using b by (rule div_nat_eqI)
  ultimately show ?thesis by simp
qed

lemma consecutive_chunks_concat: "0 < n \<Longrightarrow> concat (consecutive_chunks n xs) = xs"
proof (induction n xs rule: consecutive_chunks.induct)
  case (1 n xs)
  show ?case
  proof (cases "xs = []")
    case True
    then show ?thesis by (simp add: consecutive_chunks_Nil)
  next
    case False
    with 1 have "concat (consecutive_chunks n (drop n xs)) = drop n xs" by simp
    then show ?thesis
      using False "1.prems" by (simp add: consecutive_chunks_Cons)
  qed
qed

lemma consecutive_chunks_bound:
  "0 < n \<Longrightarrow> c \<in> set (consecutive_chunks n xs) \<Longrightarrow> c \<noteq> [] \<and> length c \<le> n"
proof (induction n xs rule: consecutive_chunks.induct)
  case (1 n xs)
  show ?case
  proof (cases "xs = []")
    case True
    with "1.prems" show ?thesis by (simp add: consecutive_chunks_Nil)
  next
    case False
    from "1.prems" False have "c = take n xs \<or> c \<in> set (consecutive_chunks n (drop n xs))"
      by (simp add: consecutive_chunks_Cons)
    then show ?thesis
    proof
      assume "c = take n xs"
      then show ?thesis using False "1.prems"(1) by simp
    next
      assume "c \<in> set (consecutive_chunks n (drop n xs))"
      then show ?thesis using "1.IH" False "1.prems"(1) by simp
    qed
  qed
qed

lemma consecutive_chunks_length:
  "0 < n \<Longrightarrow> length (consecutive_chunks n xs) = (length xs + (n - 1)) div n"
proof (induction n xs rule: consecutive_chunks.induct)
  case (1 n xs)
  show ?case
  proof (cases "xs = []")
    case True
    then show ?thesis using "1.prems" by (simp add: consecutive_chunks_Nil)
  next
    case False
    with 1 have "length (consecutive_chunks n (drop n xs)) = (length xs - n + (n - 1)) div n"
      by simp
    then have "length (consecutive_chunks n xs) = Suc ((length xs - n + (n - 1)) div n)"
      using False "1.prems" by (simp add: consecutive_chunks_Cons)
    also have "\<dots> = (length xs + (n - 1)) div n"
      using "1.prems" False by (intro ceil_div_step) simp_all
    finally show ?thesis .
  qed
qed

lemma chunk_buffers_counts:
  "list_all2 (chunk_buffer ops S name) bs cs \<Longrightarrow> map declared_count bs = map length cs"
  by (induction bs cs rule: list_all2_induct) (simp_all add: chunk_buffer_def declared_count_def)

text \<open>
  Claim C3, as the code has it. For a device and a non-empty array of \<open>N\<close> records that
  match the struct (every field of the field list, fillers included, has an accepted
  value): below 65000 records \<open>createBuffer\<close> returns one handle that holds the \<open>N\<close>
  packed records, flagged \<open>isArray\<close>, and carries no \<open>count\<close> attribute; from 65000
  records on it returns \<open>ceil(N / 65000)\<close> handles, one per consecutive chunk of at most
  65000 records, each holding its chunk's packed records and carrying the chunk's length
  as \<open>count\<close>, and the counts sum to \<open>N\<close>.
\<close>

theorem createBuffer_chunking:
  assumes "initialized dev" and "vals \<noteq> []" and "\<forall>v \<in> set vals. record_matches ops S v"
  shows "(length vals < 65000 \<longrightarrow>
           (\<exists>b dev'. createBuffer ops dev S name (ValueArray vals) = (Inr (OneBuffer b), dev') \<and>
              buffer_count b = None \<and> buffer_isArray b \<and> buffer_struct b = Some S \<and>
              toFloat32Array ops S (ValueArray vals) = Inr (buffer_data b) \<and>
              length (buffer_data b) = floatSize S * length vals)) \<and>
         (65000 \<le> length vals \<longrightarrow>
           (\<exists>bs dev'. createBuffer ops dev S name (ValueArray vals) = (Inr (BufferArray bs), dev') \<and>
              length bs = (length vals + 64999) div 65000 \<and>
              list_all2 (chunk_buffer ops S name) bs (consecutive_chunks 65000 vals) \<and>
              concat (consecutive_chunks 65000 vals) = vals \<and>
              (\<forall>c \<in> set (consecutive_chunks 65000 vals). c \<noteq> [] \<and> length c \<le> 65000) \<and>
              sum_list (map declared_count bs) = length vals))"
proof (intro conjI impI)
  assume small: "length vals < 65000"
  obtain arr where arr: "toFloat32Array ops S (ValueArray vals) = Inr arr"
    and len: "length arr = floatSize S * length vals"
    using toFloat32Array_array_ok [OF assms(3)] by blast
  have "createBuffer ops dev S name (ValueArray vals) =
      (Inr (OneBuffer \<lparr>buffer_name = name, buffer_data = arr, buffer_size = 4 * length arr,
             buffer_gpu = length (buffers dev), buffer_struct = Some S,
             buffer_isArray = True, buffer_count = None\<rparr>),
       dev\<lparr>buffers := buffers dev @ [arr]\<rparr>)"
    using small assms(1,2) arr
    by (simp add: createBuffer_def Buffer_new_Float32Data)
  with arr len show "\<exists>b dev'. createBuffer ops dev S name (ValueArray vals) = (Inr (OneBuffer b), dev') \<and>
              buffer_count b = None \<and> buffer_isArray b \<and> buffer_struct b = Some S \<and>
              toFloat32Array ops S (ValueArray vals) = Inr (buffer_data b) \<and>
              length (buffer_data b) = floatSize S * length vals"
    by simp
next
  assume large: "65000 \<le> length vals"
  obtain bs dev' where loop: "chunk_loop ops dev S name vals 0 [] = (Inr ([] @ bs), dev')"
    and all: "list_all2 (chunk_buffer ops S name) bs (consecutive_chunks 65000 (drop 0 vals))"
    using chunk_loop_ok [OF assms(1,3)] by blast
  have res: "createBuffer ops dev S name (ValueArray vals) = (Inr (BufferArray bs), dev')"
    using large loop assms(2) by (simp add: createBuffer_def)
  have all': "list_all2 (chunk_buffer ops S name) bs (consecutive_chunks 65000 vals)"
    using all by simp
  have n: "length bs = (length vals + 64999) div 65000"
    using list_all2_lengthD [OF all'] consecutive_chunks_length [of 65000 vals] by simp
  have cat: "concat (consecutive_chunks 65000 vals) = vals"
    by (rule consecutive_chunks_concat) simp
  have bound: "\<forall>c \<in> set (consecutive_chunks 65000 vals). c \<noteq> [] \<and> length c \<le> 65000"
    using consecutive_chunks_bound [of 65000 _ vals] by simp
  have "sum_list (map declared_count bs) = sum_list (map length (consecutive_chunks 65000 vals))"
    by (simp add: chunk_buffers_counts [OF all'])
  also have "\<dots> = length (concat (consecutive_chunks 65000 vals))"
    by (simp add: length_concat)
  finally have total: "sum_list (map declared_count bs) = length vals"
    by (simp add: cat)
  from res n all' cat bound total
  show "\<exists>bs dev'. createBuffer ops dev S name (ValueArray vals) = (Inr (BufferArray bs), dev') \<and>
              length bs = (length vals + 64999) div 65000 \<and>
              list_all2 (chunk_buffer ops S name) bs (consecutive_chunks 65000 vals) \<and>
              concat (consecutive_chunks 65000 vals) = vals \<and>
              (\<forall>c \<in> set (consecutive_chunks 65000 vals). c \<noteq> [] \<and> length c \<le> 65000) \<and>
              sum_list (map declared_count bs) = length vals"
    by blast
qed

theorem createBuffer_chunking_witness:
  "(\<exists>bs dev'. createBuffer example_ops
        \<lparr>initialized = True, buffers = [], submitted = [], validation_errors = 0\<rparr>
        \<lparr>struct_name = ''Pt'', struct_data = [\<lparr>field_name = ''p'', field_type = type_vec4\<rparr>]\<rparr>
        ''pts''
        (ValueArray (replicate 65001
           (Obj [(''p'', Obj [(''x'', Num (Some 1)), (''y'', Num (Some 2)),
                              (''z'', Num (Some 3)), (''w'', Num (Some 4))])])))
      = (Inr (BufferArray bs), dev')
      \<and> length bs = 2 \<and> sum_list (map declared_count bs) = 65001)
   \<and> (\<exists>b dev'. createBuffer example_ops
        \<lparr>initialized = True, buffers = [], submitted = [], validation_errors = 0\<rparr>
        \<lparr>struct_name = ''Pt'', struct_data = [\<lparr>field_name = ''p'', field_type = type_vec4\<rparr>]\<rparr>
        ''pts''
        (ValueArray (replicate 2
           (Obj [(''p'', Obj [(''x'', Num (Some 1)), (''y'', Num (Some 2)),
                              (''z'', Num (Some 3)), (''w'', Num (Some 4))])])))
      = (Inr (OneBuffer b), dev')
      \<and> buffer_count b = None \<and> length (buffer_data b) = 8)"
proof -
  let ?dev = "\<lparr>initialized = True, buffers = ([] :: int option list list), submitted = [],
               validation_errors = 0\<rparr>"
  let ?S = "\<lparr>struct_name = ''Pt'', struct_data = [\<lparr>field_name = ''p'', field_type = type_vec4\<rparr>]\<rparr>"
  let ?r = "Obj [(''p'', Obj [(''x'', Num (Some 1)), (''y'', Num (Some 2)),
                              (''z'', Num (Some 3)), (''w'', Num (Some (4::int)))])]"
  have h1: "initialized ?dev" by simp
  have r: "record_matches example_ops ?S ?r" by code_simp
  have fs: "floatSize ?S = 4" by code_simp
  define vals where "vals = replicate 65001 ?r"
  define vals' where "vals' = replicate 2 ?r"
  have len: "length vals = 65001" and len': "length vals' = 2"
    by (simp_all add: vals_def vals'_def)
  have h2: "vals \<noteq> []" and h2': "vals' \<noteq> []"
    using len len' by auto
  have h3: "\<forall>v \<in> set vals. record_matches example_ops ?S v"
    and h3': "\<forall>v \<in> set vals'. record_matches example_ops ?S v"
    using r by (simp_all add: vals_def vals'_def)
  have ge: "65000 \<le> length vals" and lt: "length vals' < 65000"
    unfolding len len' by simp_all
  note B = createBuffer_chunking [OF h1 h2 h3, of "''pts''", THEN conjunct2, THEN mp, OF ge]
  note A = createBuffer_chunking [OF h1 h2' h3', of "''pts''", THEN conjunct1, THEN mp, OF lt]
  from B obtain bs dev' where
    b1: "createBuffer example_ops ?dev ?S ''pts'' (ValueArray vals) = (Inr (BufferArray bs), dev')"
    and b2: "length bs = (length vals + 64999) div 65000"
    and b3: "sum_list (map declared_count bs) = length vals"
    by blast
  have b2': "length bs = 2" unfolding b2 len by simp
  have b3': "sum_list (map declared_count bs) = 65001" unfolding b3 len ..
  from A obtain b dev'' where
    a1: "createBuffer example_ops ?dev ?S ''pts'' (ValueArray vals') = (Inr (OneBuffer b), dev'')"
    and a2: "buffer_count b = None"
    and a3: "length (buffer_data b) = floatSize ?S * length vals'"
    by blast
  have a3': "length (buffer_data b) = 8" unfolding a3 len' fs by simp
  show ?thesis
    unfolding vals_def [symmetric] vals'_def [symmetric]
    using b1 b2' b3' a1 a2 a3' by blast
qed

text \<open>
  Where C3 fails as stated: the handle returned for an array below 65000 records has no
  \<open>count\<close>. Here one record is given in an array.
\<close>

theorem createBuffer_single_has_no_count:
  "createBuffer example_ops
        \<lparr>initialized = True, buffers = [], submitted = [], validation_errors = 0\<rparr>
        \<lparr>struct_name = ''Pt'', struct_data = [\<lparr>field_name = ''p'', field_type = type_vec4\<rparr>]\<rparr>
        ''pts''
        (ValueArray
           [Obj [(''p'', Obj [(''x'', Num (Some 1)), (''y'', Num (Some 2)),
                              (''z'', Num (Some 3)), (''w'', Num (Some 4))])]])
   = (Inr (OneBuffer
        \<lparr>buffer_name = ''pts'', buffer_data = [Some 1, Some 2, Some 3, Some 4], buffer_size = 16,
         buffer_gpu = 0,
         buffer_struct = Some \<lparr>struct_name = ''Pt'',
                                struct_data = [\<lparr>field_name = ''p'', field_type = type_vec4\<rparr>]\<rparr>,
         buffer_isArray = True, buffer_count = None\<rparr>),
      \<lparr>initialized = True, buffers = [[Some 1, Some 2, Some 3, Some 4]], submitted = [],
       validation_errors = 0\<rparr>)"
proof -
  have "toFloat32Array example_ops
        \<lparr>struct_name = ''Pt'', struct_data = [\<lparr>field_name = ''p'', field_type = type_vec4\<rparr>]\<rparr>
        (ValueArray
           [Obj [(''p'', Obj [(''x'', Num (Some 1)), (''y'', Num (Some 2)),
                              (''z'', Num (Some 3)), (''w'', Num (Some 4))])]])
      = Inr [Some 1, Some 2, Some 3, Some 4]"
    by code_simp
  then show ?thesis
    by (simp add: createBuffer_def Buffer_new_def Let_def)
qed

section \<open>Verification: what the patterns match\<close>

lemma match_word:
  assumes "w \<noteq> []" and "is_word (hd w)" and "is_word (last w)"
  shows "match_atoms [WordBoundary, Lit w, WordBoundary] prev s =
           (prefix w s \<and> \<not> word_before prev [] \<and> \<not> word_after (drop (length w) s))"
proof (cases "prefix w s")
  case False
  then show ?thesis by simp
next
  case True
  then obtain post where s: "s = w @ post" by (auto simp: prefix_def)
  obtain c cs where w: "w = c # cs" using assms(1) by (cases w) auto
  have "boundary prev s = (\<not> word_before prev [])"
    using assms(2) by (simp add: boundary_def word_before_def last_char_def s w)
  moreover have "boundary (last_char prev w) (drop (length w) s) = (\<not> word_after post)"
    using assms(1,3) by (simp add: boundary_def word_after_def last_char_def s split: list.splits)
  ultimately show ?thesis using True by (simp add: s)
qed

lemma search_word:
  assumes "w \<noteq> []" and "is_word (hd w)" and "is_word (last w)"
  shows "search_from [WordBoundary, Lit w, WordBoundary] prev s =
           (\<exists>pre post. s = pre @ w @ post \<and> \<not> word_before prev pre \<and> \<not> word_after post)"
proof (induction s arbitrary: prev)
  case Nil
  show ?case using assms(1) by (simp add: match_word [OF assms])
next
  case (Cons c cs)
  have here: "match_atoms [WordBoundary, Lit w, WordBoundary] prev (c # cs) =
      (\<exists>post. c # cs = [] @ w @ post \<and> \<not> word_before prev [] \<and> \<not> word_after post)"
    unfolding match_word [OF assms] by (auto simp: prefix_def)
  have later: "(\<exists>pre post. cs = pre @ w @ post \<and> \<not> word_before (Some c) pre \<and> \<not> word_after post) =
      (\<exists>pre post. c # cs = (c # pre) @ w @ post \<and> \<not> word_before prev (c # pre) \<and> \<not> word_after post)"
    by (auto simp: word_before_def last_char_def)
  show ?case
  proof
    assume "search_from [WordBoundary, Lit w, WordBoundary] prev (c # cs)"
    then consider "match_atoms [WordBoundary, Lit w, WordBoundary] prev (c # cs)"
      | "search_from [WordBoundary, Lit w, WordBoundary] (Some c) cs" by auto
    then show "\<exists>pre post. c # cs = pre @ w @ post \<and> \<not> word_before prev pre \<and> \<not> word_after post"
    proof cases
      case 1
      then show ?thesis unfolding here by blast
    next
      case 2
      then show ?thesis unfolding Cons.IH later by blast
    qed
  next
    assume "\<exists>pre post. c # cs = pre @ w @ post \<and> \<not> word_before prev pre \<and> \<not> word_after post"
    then obtain pre post where eq: "c # cs = pre @ w @ post"
      and b: "\<not> word_before prev pre" and a: "\<not> word_after post" by blast
    show "search_from [WordBoundary, Lit w, WordBoundary] prev (c # cs)"
    proof (cases pre)
      case Nil
      then have "match_atoms [WordBoundary, Lit w, WordBoundary] prev (c # cs)"
        unfolding here using eq a b by auto
      then show ?thesis by simp
    next
      case (Cons d pre')
      then have "cs = pre' @ w @ post" "\<not> word_before (Some c) pre'"
        using eq b by (auto simp: word_before_def last_char_def split: if_splits)
      then have "search_from [WordBoundary, Lit w, WordBoundary] (Some c) cs"
        unfolding Cons.IH using a by blast
      then show ?thesis by simp
    qed
  qed
qed

lemma regex_test_word:
  assumes "w \<noteq> []" and "is_word (hd w)" and "is_word (last w)"
  shows "regex_test [[WordBoundary, Lit w, WordBoundary]] src = whole_word w src"
proof -
  have "(\<not> word_before None pre) = (pre = [] \<or> \<not> is_word (last pre))" for pre
    by (simp add: word_before_def last_char_def)
  moreover have "(\<not> word_after post) = (post = [] \<or> \<not> is_word (hd post))" for post
    by (cases post) (simp_all add: word_after_def)
  ultimately show ?thesis
    by (simp add: regex_test_def search_word [OF assms] whole_word_def)
qed

lemma match_mouse:
  "match_atoms [WordBoundary, Lit ''mouse'', OptLits [''.pos'', ''.button''], WordBoundary] prev s =
   match_atoms [WordBoundary, Lit ''mouse'', WordBoundary] prev s"
proof (cases "prefix ''mouse'' s")
  case False
  then show ?thesis by simp
next
  case True
  then obtain post where s: "s = ''mouse'' @ post" by (auto simp: prefix_def)
  have e: "is_word CHR ''e''" by (simp add: is_word_def)
  have dot: "boundary (Some CHR ''e'') post" if "prefix ''.pos'' post \<or> prefix ''.button'' post"
    using that e by (auto simp: prefix_def boundary_def is_word_def)
  show ?thesis
    unfolding s using dot by (auto simp: last_char_def)
qed

lemma search_mouse:
  "search_from [WordBoundary, Lit ''mouse'', OptLits [''.pos'', ''.button''], WordBoundary] prev s =
   search_from [WordBoundary, Lit ''mouse'', WordBoundary] prev s"
  by (induction s arbitrary: prev) (simp_all only: search_from.simps match_mouse)

lemma regex_test_mouse: "regex_test re_mouse src = whole_word ''mouse'' src"
  using regex_test_word [of "''mouse''" src]
  by (simp add: regex_test_def re_mouse_def search_mouse is_word_def)

lemma regex_test_time: "regex_test re_time src = whole_word ''time'' src"
  using regex_test_word [of "''time''" src] by (simp add: re_time_def is_word_def)

lemma regex_test_renderTxtr: "regex_test re_renderTxtr src = whole_word ''renderTxtr'' src"
  using regex_test_word [of "''renderTxtr''" src] by (simp add: re_renderTxtr_def is_word_def)

lemma regex_test_feedbackTxtr: "regex_test re_feedbackTxtr src = whole_word ''feedbackTxtr'' src"
  using regex_test_word [of "''feedbackTxtr''" src] by (simp add: re_feedbackTxtr_def is_word_def)

lemma search_from_iff:
  "search_from r prev s = (\<exists>pre post. s = pre @ post \<and> match_atoms r (last_char prev pre) post)"
proof (induction s arbitrary: prev)
  case Nil
  show ?case by (simp add: last_char_def)
next
  case (Cons c cs)
  show ?case
  proof
    assume "search_from r prev (c # cs)"
    then consider "match_atoms r prev (c # cs)" | "search_from r (Some c) cs" by auto
    then show "\<exists>pre post. c # cs = pre @ post \<and> match_atoms r (last_char prev pre) post"
    proof cases
      case 1
      then have "c # cs = [] @ (c # cs) \<and> match_atoms r (last_char prev []) (c # cs)"
        by (simp add: last_char_def)
      then show ?thesis by blast
    next
      case 2
      then obtain pre post where "cs = pre @ post" "match_atoms r (last_char (Some c) pre) post"
        unfolding Cons.IH by blast
      then have "c # cs = (c # pre) @ post \<and> match_atoms r (last_char prev (c # pre)) post"
        by (auto simp: last_char_def split: if_splits)
      then show ?thesis by blast
    qed
  next
    assume "\<exists>pre post. c # cs = pre @ post \<and> match_atoms r (last_char prev pre) post"
    then obtain pre post where eq: "c # cs = pre @ post"
      and m: "match_atoms r (last_char prev pre) post" by blast
    show "search_from r prev (c # cs)"
    proof (cases pre)
      case Nil
      with eq m have "match_atoms r prev (c # cs)" by (simp add: last_char_def)
      then show ?thesis by simp
    next
      case (Cons d pre')
      with eq m have "cs = pre' @ post" "match_atoms r (last_char (Some c) pre') post"
        by (auto simp: last_char_def split: if_splits)
      then have "search_from r (Some c) cs" unfolding Cons.IH by blast
      then show ?thesis by simp
    qed
  qed
qed

lemma match_Spaces0:
  "match_atoms (Spaces0 # r) prev s =
     (\<exists>ws post. s = ws @ post \<and> (\<forall>c \<in> set ws. is_space c) \<and>
        match_atoms r (last_char prev ws) post)"
proof (induction s arbitrary: prev)
  case Nil
  show ?case by (simp add: last_char_def)
next
  case (Cons c cs)
  show ?case
  proof
    assume "match_atoms (Spaces0 # r) prev (c # cs)"
    then consider "match_atoms r prev (c # cs)"
      | "is_space c" "match_atoms (Spaces0 # r) (Some c) cs" by auto
    then show "\<exists>ws post. c # cs = ws @ post \<and> (\<forall>c \<in> set ws. is_space c) \<and>
        match_atoms r (last_char prev ws) post"
    proof cases
      case 1
      then have "c # cs = [] @ (c # cs) \<and> (\<forall>c \<in> set []. is_space c) \<and>
          match_atoms r (last_char prev []) (c # cs)"
        by (simp add: last_char_def)
      then show ?thesis by blast
    next
      case 2
      then obtain ws post where "cs = ws @ post" "\<forall>c \<in> set ws. is_space c"
        "match_atoms r (last_char (Some c) ws) post"
        unfolding Cons.IH by blast
      with 2(1) have "c # cs = (c # ws) @ post \<and> (\<forall>c \<in> set (c # ws). is_space c) \<and>
          match_atoms r (last_char prev (c # ws)) post"
        by (auto simp: last_char_def split: if_splits)
      then show ?thesis by blast
    qed
  next
    assume "\<exists>ws post. c # cs = ws @ post \<and> (\<forall>c \<in> set ws. is_space c) \<and>
        match_atoms r (last_char prev ws) post"
    then obtain ws post where eq: "c # cs = ws @ post" and sp: "\<forall>c \<in> set ws. is_space c"
      and m: "match_atoms r (last_char prev ws) post" by blast
    show "match_atoms (Spaces0 # r) prev (c # cs)"
    proof (cases ws)
      case Nil
      with eq m have "match_atoms r prev (c # cs)" by (simp add: last_char_def)
      then show ?thesis by simp
    next
      case (Cons d ws')
      with eq m sp have "cs = ws' @ post" "\<forall>c \<in> set ws'. is_space c"
        "match_atoms r (last_char (Some c) ws') post" "is_space c"
        by (auto simp: last_char_def split: if_splits)
      then have "match_atoms (Spaces0 # r) (Some c) cs" "is_space c"
        unfolding Cons.IH by blast+
      then show ?thesis by simp
    qed
  qed
qed

lemma match_Spaces1:
  "match_atoms (Spaces1 # r) prev s =
     (\<exists>ws post. s = ws @ post \<and> ws \<noteq> [] \<and> (\<forall>c \<in> set ws. is_space c) \<and>
        match_atoms r (last_char prev ws) post)"
proof (cases s)
  case Nil
  then show ?thesis by simp
next
  case (Cons c cs)
  show ?thesis
  proof
    assume "match_atoms (Spaces1 # r) prev s"
    then have c: "is_space c" and "match_atoms (Spaces0 # r) (Some c) cs"
      using Cons by simp_all
    then obtain ws post where "cs = ws @ post" "\<forall>c \<in> set ws. is_space c"
      "match_atoms r (last_char (Some c) ws) post"
      unfolding match_Spaces0 by blast
    with c Cons have "s = (c # ws) @ post \<and> c # ws \<noteq> [] \<and> (\<forall>c \<in> set (c # ws). is_space c) \<and>
        match_atoms r (last_char prev (c # ws)) post"
      by (auto simp: last_char_def split: if_splits)
    then show "\<exists>ws post. s = ws @ post \<and> ws \<noteq> [] \<and> (\<forall>c \<in> set ws. is_space c) \<and>
        match_atoms r (last_char prev ws) post" by blast
  next
    assume "\<exists>ws post. s = ws @ post \<and> ws \<noteq> [] \<and> (\<forall>c \<in> set ws. is_space c) \<and>
        match_atoms r (last_char prev ws) post"
    then obtain ws post where eq: "s = ws @ post" and ne: "ws \<noteq> []"
      and sp: "\<forall>c \<in> set ws. is_space c" and m: "match_atoms r (last_char prev ws) post"
      by blast
    from ne obtain d ws' where ws: "ws = d # ws'" by (cases ws) auto
    with eq Cons have d: "d = c" and cs: "cs = ws' @ post" by simp_all
    have "cs = ws' @ post \<and> (\<forall>c \<in> set ws'. is_space c) \<and>
        match_atoms r (last_char (Some c) ws') post"
      using cs sp m ws d by (auto simp: last_char_def split: if_splits)
    then have "match_atoms (Spaces0 # r) (Some c) cs"
      unfolding match_Spaces0 by blast
    with sp ws d Cons show "match_atoms (Spaces1 # r) prev s" by simp
  qed
qed

lemma match_Lit_end: "match_atoms [Lit l] prev s = prefix l s"
  by simp

lemma call_pattern:
  assumes "w \<noteq> []" and "is_word (hd w)"
  shows "search_from [WordBoundary, Lit w, Spaces0, Lit l] None src =
           (\<exists>pre ws post. src = pre @ w @ ws @ l @ post \<and>
              (pre = [] \<or> \<not> is_word (last pre)) \<and> (\<forall>c \<in> set ws. is_space c))"
proof -
  have b: "boundary (last_char None pre) (w @ rest) = (pre = [] \<or> \<not> is_word (last pre))"
    for pre rest
    using assms by (cases w) (auto simp: boundary_def last_char_def)
  have m: "match_atoms [WordBoundary, Lit w, Spaces0, Lit l] (last_char None pre) post =
      (\<exists>ws post'. post = w @ ws @ l @ post' \<and> (pre = [] \<or> \<not> is_word (last pre)) \<and>
         (\<forall>c \<in> set ws. is_space c))" for pre post
  proof (cases "prefix w post")
    case False
    then show ?thesis by (auto simp: prefix_def)
  next
    case True
    then obtain rest where post: "post = w @ rest" by (auto simp: prefix_def)
    have "match_atoms [Spaces0, Lit l] p rest =
        (\<exists>ws post'. rest = ws @ l @ post' \<and> (\<forall>c \<in> set ws. is_space c))" for p
      unfolding match_Spaces0 by (auto simp: prefix_def)
    then show ?thesis unfolding post using b [of pre rest] by auto
  qed
  show ?thesis unfolding search_from_iff m by auto
qed

lemma regex_test_noise_call: "regex_test re_noise_call src = calls_noise src"
proof -
  have "regex_test re_noise_call src =
      (search_from [WordBoundary, Lit ''noise'', Spaces0, Lit ''(''] None src \<or>
       search_from [WordBoundary, Lit ''noise2'', Spaces0, Lit ''(''] None src \<or>
       search_from [WordBoundary, Lit ''noise3'', Spaces0, Lit ''(''] None src)"
    by (simp add: regex_test_def re_noise_call_def)
  also have "\<dots> = calls_noise src"
  proof -
    have p1: "search_from [WordBoundary, Lit ''noise'', Spaces0, Lit ''(''] None src =
        (\<exists>pre ws post. src = pre @ ''noise'' @ ws @ ''('' @ post \<and>
              (pre = [] \<or> \<not> is_word (last pre)) \<and> (\<forall>c \<in> set ws. is_space c))"
      by (rule call_pattern) (simp_all add: is_word_def)
    have p2: "search_from [WordBoundary, Lit ''noise2'', Spaces0, Lit ''(''] None src =
        (\<exists>pre ws post. src = pre @ ''noise2'' @ ws @ ''('' @ post \<and>
              (pre = [] \<or> \<not> is_word (last pre)) \<and> (\<forall>c \<in> set ws. is_space c))"
      by (rule call_pattern) (simp_all add: is_word_def)
    have p3: "search_from [WordBoundary, Lit ''noise3'', Spaces0, Lit ''(''] None src =
        (\<exists>pre ws post. src = pre @ ''noise3'' @ ws @ ''('' @ post \<and>
              (pre = [] \<or> \<not> is_word (last pre)) \<and> (\<forall>c \<in> set ws. is_space c))"
      by (rule call_pattern) (simp_all add: is_word_def)
    have "calls_noise src =
        ((\<exists>pre ws post. src = pre @ ''noise'' @ ws @ ''('' @ post \<and>
              (pre = [] \<or> \<not> is_word (last pre)) \<and> (\<forall>c \<in> set ws. is_space c)) \<or>
         (\<exists>pre ws post. src = pre @ ''noise2'' @ ws @ ''('' @ post \<and>
              (pre = [] \<or> \<not> is_word (last pre)) \<and> (\<forall>c \<in> set ws. is_space c)) \<or>
         (\<exists>pre ws post. src = pre @ ''noise3'' @ ws @ ''('' @ post \<and>
              (pre = [] \<or> \<not> is_word (last pre)) \<and> (\<forall>c \<in> set ws. is_space c)))"
      unfolding calls_noise_def insert_iff empty_iff by blast
    then show ?thesis unfolding p1 p2 p3 by simp
  qed
  finally show ?thesis .
qed

lemma regex_test_fn: "regex_test (re_fn name) src = fn_header name src"
proof -
  have m: "match_atoms [Lit ''fn'', Spaces1, Lit name, Spaces0, Lit ''(''] p post =
      (\<exists>ws1 ws2 post'. post = ''fn'' @ ws1 @ name @ ws2 @ ''('' @ post' \<and> ws1 \<noteq> [] \<and>
         (\<forall>c \<in> set ws1. is_space c) \<and> (\<forall>c \<in> set ws2. is_space c))" for p post
  proof (cases "prefix ''fn'' post")
    case False
    then show ?thesis by (auto simp: prefix_def)
  next
    case True
    then obtain rest where post: "post = ''fn'' @ rest" by (auto simp: prefix_def)
    have tail: "match_atoms [Lit name, Spaces0, Lit ''(''] q t =
        (\<exists>ws2 post'. t = name @ ws2 @ ''('' @ post' \<and> (\<forall>c \<in> set ws2. is_space c))" for q t
    proof (cases "prefix name t")
      case False
      then show ?thesis by (auto simp: prefix_def)
    next
      case True
      then obtain u where t: "t = name @ u" by (auto simp: prefix_def)
      have "match_atoms [Spaces0, Lit ''(''] q' u =
          (\<exists>ws2 post'. u = ws2 @ ''('' @ post' \<and> (\<forall>c \<in> set ws2. is_space c))" for q'
        unfolding match_Spaces0 by (auto simp: prefix_def)
      then show ?thesis unfolding t by simp
    qed
    have "match_atoms [Spaces1, Lit name, Spaces0, Lit ''(''] q rest =
        (\<exists>ws1 ws2 post'. rest = ws1 @ name @ ws2 @ ''('' @ post' \<and> ws1 \<noteq> [] \<and>
           (\<forall>c \<in> set ws1. is_space c) \<and> (\<forall>c \<in> set ws2. is_space c))" for q
      unfolding match_Spaces1 tail by blast
    then show ?thesis unfolding post by simp
  qed
  have "regex_test (re_fn name) src =
      search_from [Lit ''fn'', Spaces1, Lit name, Spaces0, Lit ''(''] None src"
    by (simp add: regex_test_def re_fn_def)
  also have "\<dots> = (\<exists>pre post. src = pre @ post \<and>
      match_atoms [Lit ''fn'', Spaces1, Lit name, Spaces0, Lit ''(''] (last_char None pre) post)"
    by (rule search_from_iff)
  also have "\<dots> = fn_header name src"
    unfolding m fn_header_def by blast
  finally show ?thesis .
qed

section \<open>Verification: the auto-binding loop\<close>

lemma some_named_False:
  assumes "some_named bs a = Inr False"
  shows "bs = [] \<or> (\<exists>m. auto_name a = Inr m \<and>
            (\<forall>b \<in> set bs. \<exists>n. entry_name b = Inr n \<and> n \<noteq> Some m))"
  using assms
proof (induction bs)
  case Nil
  then show ?case by simp
next
  case (Cons b bs)
  from Cons.prems obtain n m where n: "entry_name b = Inr n" and m: "auto_name a = Inr m"
    and ne: "n \<noteq> Some m" and rest: "some_named bs a = Inr False"
    by (auto split: sum.splits if_splits)
  from Cons.IH [OF rest] m have "\<forall>b \<in> set bs. \<exists>n. entry_name b = Inr n \<and> n \<noteq> Some m"
    by auto
  with n m ne show ?case by auto
qed

lemma newBinding_name:
  "newBinding a = Inr h \<Longrightarrow> auto_name a = Inr m \<Longrightarrow> entry_name (Handle h) = Inr (Some m)"
  by (auto simp: newBinding_def auto_name_def entry_name_def split: auto.splits option.splits)

lemma newBinding_Null:
  "newBinding a = Inr NullHandle \<Longrightarrow> auto_name a = Inl TypeError"
  by (auto simp: newBinding_def auto_name_def split: auto.splits option.splits)

lemma auto_step_cases:
  assumes "auto_step code bs row = Inr bs'"
  shows "bs' = bs \<or>
    (\<exists>h. bs' = bs @ [Handle h] \<and> newBinding (fst row) = Inr h \<and> regex_test (snd row) code \<and>
         some_named bs (fst row) = Inr False)"
  using assms by (auto simp: auto_step_def split: if_splits sum.splits bool.splits)

lemma auto_step_fresh_name:
  assumes "auto_step code bs row = Inr (bs @ [Handle h])"
  shows "\<forall>b \<in> set bs. entry_name b \<noteq> entry_name (Handle h)"
proof (cases "bs = []")
  case True
  then show ?thesis by simp
next
  case False
  from auto_step_cases [OF assms] have nb: "newBinding (fst row) = Inr h"
    and sn: "some_named bs (fst row) = Inr False" by auto
  from some_named_False [OF sn] False obtain m where m: "auto_name (fst row) = Inr m"
    and all: "\<forall>b \<in> set bs. \<exists>n. entry_name b = Inr n \<and> n \<noteq> Some m" by auto
  from newBinding_name [OF nb m] all show ?thesis by fastforce
qed

lemma auto_bind_appends:
  assumes "auto_bind code rows bs = (r, bs')"
  shows "\<exists>ex. bs' = bs @ ex \<and> distinct (map entry_name ex) \<and>
           (\<forall>b \<in> set ex. (\<forall>b' \<in> set bs. entry_name b \<noteq> entry_name b') \<and>
              (\<exists>row \<in> set rows. \<exists>h. newBinding (fst row) = Inr h \<and> b = Handle h \<and>
                  regex_test (snd row) code))"
  using assms
proof (induction rows arbitrary: bs)
  case Nil
  then show ?case by simp
next
  case (Cons row rows)
  show ?case
  proof (cases "auto_step code bs row")
    case (Inl e)
    with Cons.prems show ?thesis by simp
  next
    case (Inr bs1)
    with Cons.prems have rest: "auto_bind code rows bs1 = (r, bs')" by simp
    from Cons.IH [OF rest] obtain ex where ex: "bs' = bs1 @ ex"
      and dist: "distinct (map entry_name ex)"
      and fresh: "\<forall>b \<in> set ex. (\<forall>b' \<in> set bs1. entry_name b \<noteq> entry_name b') \<and>
              (\<exists>row \<in> set rows. \<exists>h. newBinding (fst row) = Inr h \<and> b = Handle h \<and>
                  regex_test (snd row) code)"
      by blast
    from auto_step_cases [OF Inr] show ?thesis
    proof
      assume "bs1 = bs"
      with ex dist fresh show ?thesis by auto
    next
      assume "\<exists>h. bs1 = bs @ [Handle h] \<and> newBinding (fst row) = Inr h \<and>
                regex_test (snd row) code \<and> some_named bs (fst row) = Inr False"
      then obtain h where bs1: "bs1 = bs @ [Handle h]" and nb: "newBinding (fst row) = Inr h"
        and re: "regex_test (snd row) code" by blast
      have fr: "\<forall>b \<in> set bs. entry_name b \<noteq> entry_name (Handle h)"
        using auto_step_fresh_name Inr bs1 by blast
      have "bs' = bs @ (Handle h # ex)" using ex bs1 by simp
      moreover have "distinct (map entry_name (Handle h # ex))"
        using dist fresh bs1 by auto
      moreover have "\<forall>b \<in> set (Handle h # ex). (\<forall>b' \<in> set bs. entry_name b \<noteq> entry_name b') \<and>
              (\<exists>row' \<in> set (row # rows). \<exists>h'. newBinding (fst row') = Inr h' \<and> b = Handle h' \<and>
                  regex_test (snd row') code)"
        using fresh fr nb re bs1 by (auto simp: eq_commute [of "entry_name (Handle h)"])
      ultimately show ?thesis by blast
    qed
  qed
qed

lemma some_named_True_named: "some_named bs a = Inr True \<Longrightarrow> named bs a"
proof (induction bs)
  case Nil
  then show ?case by simp
next
  case (Cons b bs)
  then show ?case
    by (auto simp: named_def split: sum.splits if_splits)
qed

lemma entry_name_defined: "b \<noteq> Handle NullHandle \<Longrightarrow> \<exists>n. entry_name b = Inr n"
  by (cases b) (auto simp: entry_name_def split: handle.splits)

lemma named_some_named:
  assumes "named bs a" and "Handle NullHandle \<notin> set bs"
  shows "some_named bs a = Inr True"
  using assms
proof (induction bs)
  case Nil
  then show ?case by (simp add: named_def)
next
  case (Cons b bs)
  from Cons.prems(1) obtain m where m: "auto_name a = Inr m" by (auto simp: named_def)
  from Cons.prems(2) obtain n where n: "entry_name b = Inr n"
    using entry_name_defined [of b] by auto
  show ?case
  proof (cases "n = Some m")
    case True
    with m n show ?thesis by simp
  next
    case False
    then have "named bs a" using Cons.prems(1) m n by (auto simp: named_def)
    then have "some_named bs a = Inr True" using Cons.IH Cons.prems(2) by simp
    with m n False show ?thesis by simp
  qed
qed

lemma named_mono: "named bs a \<Longrightarrow> set bs \<subseteq> set bs' \<Longrightarrow> named bs' a"
  by (auto simp: named_def)

lemma auto_step_named:
  assumes "auto_step code bs row = Inr bs'" and "regex_test (snd row) code"
  shows "named bs' (fst row) \<or> Handle NullHandle \<in> set bs'"
proof -
  from assms consider "some_named bs (fst row) = Inr True" "bs' = bs"
    | h where "newBinding (fst row) = Inr h" "bs' = bs @ [Handle h]"
    by (auto simp: auto_step_def split: sum.splits bool.splits)
  then show ?thesis
  proof cases
    case 1
    then show ?thesis using some_named_True_named by blast
  next
    case 2
    show ?thesis
    proof (cases "auto_name (fst row)")
      case (Inl e)
      with 2 have "h = NullHandle"
        by (auto simp: newBinding_def auto_name_def split: auto.splits option.splits)
      with 2 show ?thesis by simp
    next
      case (Inr m)
      from newBinding_name [OF 2(1) Inr] 2(2) Inr show ?thesis
        by (auto simp: named_def)
    qed
  qed
qed

lemma auto_bind_named:
  assumes "auto_bind code rows bs = (None, F)" and "row \<in> set rows"
    and "regex_test (snd row) code"
  shows "named F (fst row) \<or> Handle NullHandle \<in> set F"
  using assms
proof (induction rows arbitrary: bs)
  case Nil
  then show ?case by simp
next
  case (Cons r rows)
  from Cons.prems(1) obtain bs1 where step: "auto_step code bs r = Inr bs1"
    and rest: "auto_bind code rows bs1 = (None, F)"
    by (auto split: sum.splits)
  from auto_bind_appends [OF rest] obtain ex where F: "F = bs1 @ ex" by blast
  show ?case
  proof (cases "row = r")
    case True
    from auto_step_named [OF step] Cons.prems(3) True
    have "named bs1 (fst row) \<or> Handle NullHandle \<in> set bs1" by simp
    then show ?thesis using F named_mono [of bs1 "fst row" F] by auto
  next
    case False
    then have "row \<in> set rows" using Cons.prems(2) by simp
    from Cons.IH [OF rest this Cons.prems(3)] show ?thesis .
  qed
qed

lemma auto_bind_stable:
  assumes "\<forall>row \<in> set rows. regex_test (snd row) code \<longrightarrow> some_named F (fst row) = Inr True"
  shows "auto_bind code rows F = (None, F)"
  using assms by (induction rows) (simp_all add: auto_step_def)

lemma some_named_free:
  assumes "auto_name a = Inr m" and "\<forall>b \<in> set bs. \<exists>n. entry_name b = Inr n \<and> n \<noteq> Some m"
  shows "some_named bs a = Inr False"
  using assms(2)
proof (induction bs)
  case Nil
  then show ?case by simp
next
  case (Cons b bs)
  then obtain n where "entry_name b = Inr n" "n \<noteq> Some m" by auto
  with Cons assms(1) show ?case by simp
qed

lemma newBinding_entry_name:
  assumes "newBinding a = Inr h" and "auto_name a \<noteq> Inr m"
  shows "entry_name (Handle h) \<noteq> Inr (Some m)"
  using assms
  by (auto simp: newBinding_def auto_name_def entry_name_def split: auto.splits option.splits)

lemma auto_step_keeps_free:
  assumes "auto_step code bs r = Inr bs1" and "auto_name (fst r) \<noteq> Inr m"
    and "\<forall>b \<in> set bs. entry_name b \<noteq> Inr (Some m)"
  shows "\<forall>b \<in> set bs1. entry_name b \<noteq> Inr (Some m)"
proof -
  from auto_step_cases [OF assms(1)] show ?thesis
  proof
    assume "bs1 = bs"
    with assms(3) show ?thesis by simp
  next
    assume "\<exists>h. bs1 = bs @ [Handle h] \<and> newBinding (fst r) = Inr h \<and>
              regex_test (snd r) code \<and> some_named bs (fst r) = Inr False"
    then obtain h where "bs1 = bs @ [Handle h]" "newBinding (fst r) = Inr h" by blast
    with assms(3) newBinding_entry_name [OF _ assms(2)] show ?thesis by auto
  qed
qed

lemma auto_step_pushes:
  assumes "auto_step code bs row = Inr bs1" and "regex_test (snd row) code"
    and "auto_name (fst row) = Inr m" and "newBinding (fst row) = Inr h"
    and "\<forall>b \<in> set bs. entry_name b \<noteq> Inr (Some m)"
  shows "bs1 = bs @ [Handle h]"
proof -
  have "some_named bs (fst row) \<noteq> Inr True"
  proof
    assume "some_named bs (fst row) = Inr True"
    from some_named_True_named [OF this] assms(3,5) show False
      by (auto simp: named_def)
  qed
  with assms(1,2,4) show ?thesis
    by (auto simp: auto_step_def split: sum.splits bool.splits)
qed

lemma auto_bind_pushes_handle:
  assumes "auto_bind code rows bs = (None, F)" and "row \<in> set rows"
    and "regex_test (snd row) code"
    and "auto_name (fst row) = Inr m" and "newBinding (fst row) = Inr h"
    and "\<forall>b \<in> set bs. entry_name b \<noteq> Inr (Some m)"
    and "\<forall>r' \<in> set rows. r' \<noteq> row \<longrightarrow> auto_name (fst r') \<noteq> Inr m"
  shows "\<exists>ex. F = bs @ ex \<and> Handle h \<in> set ex"
  using assms(1,2,6,7)
proof (induction rows arbitrary: bs)
  case Nil
  then show ?case by simp
next
  case (Cons r0 rows)
  from Cons.prems(1) obtain bs1 where step: "auto_step code bs r0 = Inr bs1"
    and rest: "auto_bind code rows bs1 = (None, F)"
    by (auto split: sum.splits)
  from auto_bind_appends [OF rest] obtain ex1 where F: "F = bs1 @ ex1" by blast
  show ?case
  proof (cases "r0 = row")
    case True
    from auto_step_pushes [OF step [unfolded True] assms(3,4,5) Cons.prems(3)]
    have "bs1 = bs @ [Handle h]" .
    with F have "F = bs @ (Handle h # ex1) \<and> Handle h \<in> set (Handle h # ex1)" by simp
    then show ?thesis by blast
  next
    case False
    with Cons.prems(2) have mem: "row \<in> set rows" by simp
    from False Cons.prems(4) have other: "auto_name (fst r0) \<noteq> Inr m" by simp
    from auto_step_keeps_free [OF step other Cons.prems(3)]
    have free: "\<forall>b \<in> set bs1. entry_name b \<noteq> Inr (Some m)" .
    from Cons.prems(4) have uniq: "\<forall>r' \<in> set rows. r' \<noteq> row \<longrightarrow> auto_name (fst r') \<noteq> Inr m"
      by simp
    from Cons.IH [OF rest mem free uniq] obtain ex where ex: "F = bs1 @ ex" "Handle h \<in> set ex"
      by blast
    from auto_step_cases [OF step] obtain e0 where "bs1 = bs @ e0" by auto
    with ex have "F = bs @ (e0 @ ex) \<and> Handle h \<in> set (e0 @ ex)" by simp
    then show ?thesis by blast
  qed
qed

lemma pushed_by_table:
  assumes "row \<in> set (Auto_Bindings env)" and "newBinding (fst row) = Inr h"
    and "regex_test (snd row) code"
  shows "whole_word ''mouse'' code \<and>
           h = (case mouseBuffer env of None \<Rightarrow> NullHandle | Some mb \<Rightarrow> BufferHandle mb) \<or>
         whole_word ''time'' code \<and>
           h = (case timeBuffer env of None \<Rightarrow> NullHandle | Some tb \<Rightarrow> BufferHandle tb) \<or>
         whole_word ''renderTxtr'' code \<and>
           (\<exists>t. renderTxtr env = Some t \<and>
                h = TextureView \<lparr>tb_texture = t, tb_readOrWrite = WriteAccess\<rparr>) \<or>
         whole_word ''feedbackTxtr'' code \<and>
           (\<exists>t. feedbackTxtr env = Some t \<and>
                h = TextureView \<lparr>tb_texture = t, tb_readOrWrite = ReadAccess\<rparr>)"
proof -
  from assms(1) consider "row = (AutoBuffer (mouseBuffer env), re_mouse)"
    | "row = (AutoBuffer (timeBuffer env), re_time)"
    | "row = (AutoTexture (renderTxtr env) WriteAccess, re_renderTxtr)"
    | "row = (AutoTexture (feedbackTxtr env) ReadAccess, re_feedbackTxtr)"
    by (auto simp: Auto_Bindings_def)
  then show ?thesis
  proof cases
    case 1
    with assms(2,3) show ?thesis
      by (auto simp: newBinding_def regex_test_mouse split: option.splits)
  next
    case 2
    with assms(2,3) show ?thesis
      by (auto simp: newBinding_def regex_test_time split: option.splits)
  next
    case 3
    with assms(2,3) show ?thesis
      by (auto simp: newBinding_def regex_test_renderTxtr split: option.splits)
  next
    case 4
    with assms(2,3) show ?thesis
      by (auto simp: newBinding_def regex_test_feedbackTxtr split: option.splits)
  qed
qed

lemma pointer_first:
  assumes "mouseBuffer env = Some mb" and "whole_word ''mouse'' code"
    and "\<forall>b \<in> set bs. \<exists>n. entry_name b = Inr n \<and> n \<noteq> Some (buffer_name mb)"
  shows "\<exists>r ex. auto_bind code (Auto_Bindings env) bs = (r, bs @ Handle (BufferHandle mb) # ex) \<and>
           (\<forall>b \<in> set ex. entry_name b \<noteq> Inr (Some (buffer_name mb)))"
proof -
  let ?rest = "[(AutoBuffer (timeBuffer env), re_time),
      (AutoTexture (renderTxtr env) WriteAccess, re_renderTxtr),
      (AutoTexture (feedbackTxtr env) ReadAccess, re_feedbackTxtr)]"
  let ?bs1 = "bs @ [Handle (BufferHandle mb)]"
  have name: "auto_name (AutoBuffer (Some mb)) = Inr (buffer_name mb)"
    by (simp add: auto_name_def)
  from some_named_free [OF name assms(3)]
  have step: "auto_step code bs (AutoBuffer (mouseBuffer env), re_mouse) = Inr ?bs1"
    using assms(1,2) by (simp add: auto_step_def regex_test_mouse newBinding_def)
  obtain r F where rest: "auto_bind code ?rest ?bs1 = (r, F)" by force
  from auto_bind_appends [OF rest] obtain ex where F: "F = ?bs1 @ ex"
    and fresh: "\<forall>b \<in> set ex. \<forall>b' \<in> set ?bs1. entry_name b \<noteq> entry_name b'"
    by blast
  from fresh have "\<forall>b \<in> set ex. entry_name b \<noteq> Inr (Some (buffer_name mb))"
    by (auto simp: entry_name_def)
  moreover have "auto_bind code (Auto_Bindings env) bs = (r, bs @ Handle (BufferHandle mb) # ex)"
    using step rest F by (simp add: Auto_Bindings_def)
  ultimately show ?thesis by blast
qed

lemma table_row_unique:
  assumes "length (filter (\<lambda>n. n = Some m) (resource_names env)) = 1"
    and "row \<in> set (Auto_Bindings env)" and "auto_name (fst row) = Inr m"
  shows "\<forall>r' \<in> set (Auto_Bindings env). r' \<noteq> row \<longrightarrow> auto_name (fst r') \<noteq> Inr m"
proof -
  have names: "map (\<lambda>r. auto_name (fst r)) (Auto_Bindings env) =
      map (\<lambda>n. case n of None \<Rightarrow> Inl TypeError | Some k \<Rightarrow> Inr k) (resource_names env)"
    by (simp add: Auto_Bindings_def resource_names_def auto_name_def split: option.splits)
  have count: "length (filter (\<lambda>r. auto_name (fst r) = Inr m) (Auto_Bindings env)) = 1"
  proof -
    have "length (filter (\<lambda>r. auto_name (fst r) = Inr m) (Auto_Bindings env)) =
        length (filter (\<lambda>x. x = Inr m) (map (\<lambda>r. auto_name (fst r)) (Auto_Bindings env)))"
      by (simp add: filter_map comp_def)
    also have "\<dots> = length (filter (\<lambda>n. n = Some m) (resource_names env))"
    proof -
      have "((case n of None \<Rightarrow> Inl TypeError | Some k \<Rightarrow> Inr k) = (Inr m :: error + string))
          = (n = Some m)" for n
        by (cases n) simp_all
      then show ?thesis unfolding names by (simp add: filter_map comp_def)
    qed
    finally show ?thesis using assms(1) by simp
  qed
  show ?thesis
  proof (intro ballI impI)
    fix r' assume r': "r' \<in> set (Auto_Bindings env)" and ne: "r' \<noteq> row"
    show "auto_name (fst r') \<noteq> Inr m"
    proof
      assume "auto_name (fst r') = Inr m"
      with r' ne assms(2,3) have "{r', row} \<subseteq> set (filter (\<lambda>r. auto_name (fst r) = Inr m) (Auto_Bindings env))"
        by simp
      then have "card {r', row} \<le> card (set (filter (\<lambda>r. auto_name (fst r) = Inr m) (Auto_Bindings env)))"
        by (intro card_mono) simp_all
      also have "\<dots> \<le> length (filter (\<lambda>r. auto_name (fst r) = Inr m) (Auto_Bindings env))"
        by (rule card_length)
      finally show False using ne count by simp
    qed
  qed
qed

section \<open>Verification: constructing compute passes\<close>

lemma construct_snd:
  assumes "finalized env code bs = Some F"
  shows "snd (construct env code bs d e) = F"
proof -
  from assms obtain bs1 where ab: "auto_bind code (Auto_Bindings env) bs = (None, bs1)"
    and F: "F = push_noise env code bs1"
    by (auto simp: finalized_def split: prod.splits option.splits)
  show ?thesis
    by (subst construct.simps) (simp add: ab F Let_def split: option.splits sum.splits prod.splits)
qed

lemma construct_error:
  assumes "auto_bind code (Auto_Bindings env) bs = (Some err, bs')"
  shows "construct env code bs d e = (Inl err, bs')"
  using assms by (simp add: construct.simps [of env code bs d e])

lemma push_noise_Nil_cases:
  "push_noise env code [] = [] \<or> (\<exists>nb. push_noise env code [] = [Handle (BufferHandle nb)])"
  by (cases "noiseBuffer env") (simp_all add: push_noise_def)

lemma push_noise_Nil_handles:
  assumes "b \<in> set (push_noise env code [])"
  shows "\<exists>buf. b = Handle (BufferHandle buf)"
  using assms push_noise_Nil_cases [of env code] by auto

lemma handle_count_defined: "c \<noteq> NullHandle \<Longrightarrow> \<exists>n. handle_count c = Inr n"
  by (cases c) (simp_all add: handle_count_def)

lemma push_noise_Nil: "push_noise env code bs = bs @ push_noise env code []"
  by (auto simp: push_noise_def split: option.splits)

lemma find_array_None: "\<forall>b \<in> set bs. \<exists>h. b = Handle h \<Longrightarrow> find_array bs = None"
  by (induction bs rule: find_array.induct) auto

lemma find_array_first:
  "\<forall>b \<in> set pre. \<exists>h. b = Handle h \<Longrightarrow>
     find_array (pre @ HandleArray cs # post) = Some (length pre, cs)"
  by (induction pre rule: find_array.induct) auto

lemma bindingsCode_ok:
  "\<forall>b \<in> set bs. \<exists>h. b = Handle h \<and> h \<noteq> NullHandle \<Longrightarrow> \<exists>lines. bindingsCode bs i acc = Inr lines"
proof (induction bs arbitrary: i acc)
  case Nil
  then show ?case by simp
next
  case (Cons b bs)
  then obtain h where "b = Handle h" "h \<noteq> NullHandle" by auto
  then obtain line where "getBindingCode b i = Inr line"
    by (cases h) (auto simp: getBindingCode_def)
  with Cons show ?case by simp
qed

lemma build_pass_ok:
  assumes "initialized (device env)" and "\<forall>b \<in> set bs. \<exists>h. b = Handle h \<and> h \<noteq> NullHandle"
  shows "\<exists>p. build_pass env code bs (SizeValue n) e = Inr p \<and>
           pass_entries p = map binding_resource bs \<and> pass_dispatchSize p = [n] \<and>
           pass_entryPoint p = e"
proof -
  from bindingsCode_ok [OF assms(2)] obtain lines where "bindingsCode bs 0 [] = Inr lines"
    by blast
  then show ?thesis using assms(1) by (simp add: build_pass_def Let_def)
qed

lemma collect_map_Inr:
  "\<forall>x \<in> set xs. f x = Inr (g x) \<Longrightarrow> collect (map f xs) = Inr (map g xs)"
  by (induction xs) simp_all

lemma construct_single:
  assumes "initialized (device env)"
    and "\<forall>b \<in> set bs. \<exists>h. b = Handle h \<and> h \<noteq> NullHandle"
    and "auto_bind code (Auto_Bindings env) bs = (None, bs)"
  shows "\<exists>p. construct env code bs (SizeValue n) e = (Inr (Pass p), push_noise env code bs) \<and>
           pass_entries p = map binding_resource (push_noise env code bs) \<and>
           pass_dispatchSize p = [n] \<and> pass_entryPoint p = e"
proof -
  obtain nz where nz: "push_noise env code bs = bs @ nz"
    and nzh: "\<forall>b \<in> set nz. \<exists>buf. b = Handle (BufferHandle buf)"
    using push_noise_Nil [of env code bs] push_noise_Nil_handles [of _ env code] by blast
  have all: "\<forall>b \<in> set (push_noise env code bs). \<exists>h. b = Handle h \<and> h \<noteq> NullHandle"
    unfolding nz using assms(2) nzh by auto
  then have none: "find_array (push_noise env code bs) = None"
    by (intro find_array_None) blast
  from build_pass_ok [OF assms(1) all] obtain p where
    p: "build_pass env code (push_noise env code bs) (SizeValue n) e = Inr p"
    and pe: "pass_entries p = map binding_resource (push_noise env code bs)"
       "pass_dispatchSize p = [n]" "pass_entryPoint p = e"
    by blast
  have "construct env code bs (SizeValue n) e = (Inr (Pass p), push_noise env code bs)"
    by (subst construct.simps) (simp add: assms(3) none p Let_def)
  with pe show ?thesis by blast
qed

lemma build_pass_entries:
  assumes "initialized (device env)" and "\<forall>b \<in> set bs. \<exists>h. b = Handle h \<and> h \<noteq> NullHandle"
  shows "\<exists>p. build_pass env code bs d e = Inr p \<and> pass_entries p = map binding_resource bs \<and>
           pass_entryPoint p = e"
proof -
  from bindingsCode_ok [OF assms(2)] obtain lines where "bindingsCode bs 0 [] = Inr lines"
    by blast
  then show ?thesis using assms(1) by (simp add: build_pass_def Let_def)
qed

lemma auto_name_newBinding: "auto_name a = Inr m \<Longrightarrow> \<exists>h. newBinding a = Inr h"
  by (auto simp: auto_name_def newBinding_def split: auto.splits option.splits)

lemma clock_only:
  assumes "timeBuffer env = Some tb" and "regex_test re_time code"
    and "\<not> regex_test re_mouse code" and "\<not> regex_test re_renderTxtr code"
    and "\<not> regex_test re_feedbackTxtr code"
    and "regex_test re_noise_call code \<longrightarrow> noiseBuffer env = None"
  shows "finalized env code [] = Some [Handle (BufferHandle tb)]"
proof -
  have "auto_bind code (Auto_Bindings env) [] = (None, [Handle (BufferHandle tb)])"
    using assms(1-5) by (simp add: Auto_Bindings_def auto_step_def newBinding_def)
  moreover have "push_noise env code [Handle (BufferHandle tb)] = [Handle (BufferHandle tb)]"
    using assms(6) by (auto simp: push_noise_def)
  ultimately show ?thesis by (simp add: finalized_def)
qed

lemma construct_single_list:
  assumes "finalized env code bs = Some F" and "initialized (device env)"
    and "\<forall>b \<in> set F. \<exists>h. b = Handle h \<and> h \<noteq> NullHandle"
  shows "\<exists>p. fst (construct env code bs d e) = Inr (Pass p) \<and>
           pass_entries p = map binding_resource F"
proof -
  from assms(1) obtain bs1 where ab: "auto_bind code (Auto_Bindings env) bs = (None, bs1)"
    and F: "F = push_noise env code bs1"
    by (auto simp: finalized_def split: prod.splits option.splits)
  have none: "find_array (push_noise env code bs1) = None"
    using assms(3) unfolding F by (intro find_array_None) blast
  from build_pass_entries [OF assms(2,3), of code d e] obtain p where
    p: "build_pass env code (push_noise env code bs1) d e = Inr p"
    and pe: "pass_entries p = map binding_resource F"
    unfolding F by blast
  have "construct env code bs d e = (Inr (Pass p), push_noise env code bs1)"
    by (subst construct.simps) (simp add: ab none p Let_def)
  with pe show ?thesis by simp
qed

section \<open>Verification: fan-out over chunk buffers\<close>

lemma push_noise_resources:
  "map binding_resource (push_noise env code bs) =
     map binding_resource bs @
       (if calls_noise code
        then (case noiseBuffer env of None \<Rightarrow> [] | Some nb \<Rightarrow> [BufferResource (buffer_gpu nb)])
        else [])"
  by (simp add: push_noise_def regex_test_noise_call binding_resource_def split: option.splits)

text \<open>
  Claim C4. Let the device be set and let the finalized binding list of a construction
  be \<open>pre @ [HandleArray cs] @ post\<close>, where every entry of \<open>pre\<close> and \<open>post\<close> is a single
  handle and no handle is \<open>null\<close>. Then the constructor returns exactly one pass per
  handle of \<open>cs\<close>, in order. The \<open>i\<close>-th pass binds, in the positions of the finalized
  list, the entries of \<open>pre\<close>, the \<open>i\<close>-th handle of \<open>cs\<close>, and the entries of \<open>post\<close>,
  unchanged; its dispatch size is that handle's own \<open>count\<close>; its entry point is the
  one given. Each inner construction is a full construction: when the text calls a noise
  function and the noise buffer exists, the pass binds the noise buffer once more
  behind those positions, and only then does it have an entry that the finalized list
  with the handle in the array's place does not have. The caller's array is left as the
  finalized list.
\<close>

theorem ComputePass_fan_out:
  assumes "initialized (device env)"
    and "finalized env code bindings = Some (pre @ [HandleArray cs] @ post)"
    and "\<forall>b \<in> set (pre @ post). \<exists>h. b = Handle h \<and> h \<noteq> NullHandle"
    and "NullHandle \<notin> set cs"
  shows "\<exists>ps. construct env code bindings d e =
                 (Inr (Passes (map Pass ps)), pre @ [HandleArray cs] @ post) \<and>
           length ps = length cs \<and>
           (\<forall>i < length cs.
              pass_entries (ps ! i) =
                map binding_resource (pre @ [Handle (cs ! i)] @ post) @
                  (if calls_noise code
                   then (case noiseBuffer env of
                           None \<Rightarrow> [] | Some nb \<Rightarrow> [BufferResource (buffer_gpu nb)])
                   else []) \<and>
              take (length (pre @ [HandleArray cs] @ post)) (pass_entries (ps ! i)) =
                map binding_resource (pre @ [Handle (cs ! i)] @ post) \<and>
              (\<exists>n. handle_count (cs ! i) = Inr n \<and> pass_dispatchSize (ps ! i) = [n]) \<and>
              pass_entryPoint (ps ! i) = e)"
proof -
  let ?F = "pre @ [HandleArray cs] @ post"
  let ?T = "Auto_Bindings env"
  from assms(2) obtain F0 where ab: "auto_bind code ?T bindings = (None, F0)"
    and F: "?F = push_noise env code F0"
    by (auto simp: finalized_def split: prod.splits option.splits)
  have F0sub: "set F0 \<subseteq> set ?F"
    unfolding F by (auto simp: push_noise_def split: option.splits)
  have nonull: "Handle NullHandle \<notin> set ?F" using assms(3) by auto
  have found: "find_array ?F = Some (length pre, cs)"
    using assms(3) find_array_first [of pre cs post] by auto
  define sub where "sub c = pre @ [Handle c] @ post" for c
  have upd: "?F[length pre := Handle c] = sub c" for c
    by (simp add: sub_def list_update_append)
  have sub_handles: "\<forall>b \<in> set (sub c). \<exists>h. b = Handle h \<and> h \<noteq> NullHandle" if "c \<in> set cs" for c
    using assms(3,4) that by (auto simp: sub_def)
  have stable: "auto_bind code ?T (sub c) = (None, sub c)" if c: "c \<in> set cs" for c
  proof (rule auto_bind_stable, intro ballI impI)
    fix row assume row: "row \<in> set ?T" and re: "regex_test (snd row) code"
    from auto_bind_named [OF ab row re] F0sub nonull have "named F0 (fst row)" by auto
    then obtain m b where m: "auto_name (fst row) = Inr m" and b: "b \<in> set F0"
      and nm: "entry_name b = Inr (Some m)" by (auto simp: named_def)
    have "b \<noteq> HandleArray cs" using nm by (auto simp: entry_name_def)
    then have "b \<in> set (sub c)" using b F0sub by (auto simp: sub_def)
    then have "named (sub c) (fst row)" using m nm by (auto simp: named_def)
    moreover have "Handle NullHandle \<notin> set (sub c)" using sub_handles [OF c] by auto
    ultimately show "some_named (sub c) (fst row) = Inr True" by (rule named_some_named)
  qed
  have each: "\<exists>p. (case handle_count c of Inl err \<Rightarrow> Inl err
                     | Inr n \<Rightarrow> fst (construct env code (?F[length pre := Handle c]) (SizeValue n) e))
                  = Inr (Pass p) \<and>
                pass_entries p = map binding_resource (push_noise env code (sub c)) \<and>
                (\<exists>n. handle_count c = Inr n \<and> pass_dispatchSize p = [n]) \<and> pass_entryPoint p = e"
    if c: "c \<in> set cs" for c
  proof -
    from c assms(4) obtain n where n: "handle_count c = Inr n"
      using handle_count_defined [of c] by auto
    from construct_single [OF assms(1) sub_handles [OF c] stable [OF c], of n e]
    show ?thesis unfolding upd n by auto
  qed
  from each have "\<forall>c \<in> set cs. \<exists>p.
                (case handle_count c of Inl err \<Rightarrow> Inl err
                     | Inr n \<Rightarrow> fst (construct env code (?F[length pre := Handle c]) (SizeValue n) e))
                  = Inr (Pass p) \<and>
                pass_entries p = map binding_resource (push_noise env code (sub c)) \<and>
                (\<exists>n. handle_count c = Inr n \<and> pass_dispatchSize p = [n]) \<and> pass_entryPoint p = e"
    by blast
  from bchoice [OF this] obtain mk where mk: "\<forall>c \<in> set cs.
                (case handle_count c of Inl err \<Rightarrow> Inl err
                     | Inr n \<Rightarrow> fst (construct env code (?F[length pre := Handle c]) (SizeValue n) e))
                  = Inr (Pass (mk c)) \<and>
                pass_entries (mk c) = map binding_resource (push_noise env code (sub c)) \<and>
                (\<exists>n. handle_count c = Inr n \<and> pass_dispatchSize (mk c) = [n]) \<and>
                pass_entryPoint (mk c) = e"
    by blast
  have coll: "collect (map (\<lambda>c. case handle_count c of Inl err \<Rightarrow> Inl err
                     | Inr n \<Rightarrow> fst (construct env code (?F[length pre := Handle c]) (SizeValue n) e)) cs)
               = Inr (map (\<lambda>c. Pass (mk c)) cs)"
    using mk by (intro collect_map_Inr) auto
  have found': "find_array (push_noise env code F0) = Some (length pre, cs)"
    using found unfolding F .
  have coll': "collect (map (\<lambda>c. case handle_count c of Inl err \<Rightarrow> Inl err
                     | Inr n \<Rightarrow> fst (construct env code ((push_noise env code F0)[length pre := Handle c])
                                      (SizeValue n) e)) cs)
               = Inr (map (\<lambda>c. Pass (mk c)) cs)"
    using coll unfolding F .
  have "construct env code bindings d e =
          (Inr (Passes (map (\<lambda>c. Pass (mk c)) cs)), push_noise env code F0)"
    by (subst construct.simps) (simp add: ab found' coll' Let_def)
  then have res: "construct env code bindings d e = (Inr (Passes (map Pass (map mk cs))), ?F)"
    unfolding F [symmetric] by (simp add: comp_def)
  have tk: "take (length ?F) (map binding_resource (push_noise env code (sub c))) =
              map binding_resource (sub c)" for c
    by (subst push_noise_Nil) (simp add: sub_def)
  have len: "length (map mk cs) = length cs" by simp
  have all: "\<forall>i < length cs.
              pass_entries (map mk cs ! i) =
                map binding_resource (push_noise env code (pre @ [Handle (cs ! i)] @ post)) \<and>
              take (length ?F) (pass_entries (map mk cs ! i)) =
                map binding_resource (pre @ [Handle (cs ! i)] @ post) \<and>
              (\<exists>n. handle_count (cs ! i) = Inr n \<and> pass_dispatchSize (map mk cs ! i) = [n]) \<and>
              pass_entryPoint (map mk cs ! i) = e"
    using mk tk by (simp add: sub_def)
  note all' = all [unfolded push_noise_resources]
  from res len all' show ?thesis by blast
qed


theorem ComputePass_fan_out_witness:
  "finalized example_env ''let i = id.x;''
      [HandleArray [BufferHandle (example_chunk 2 2), BufferHandle (example_chunk 3 1),
                    BufferHandle (example_chunk 4 3)],
       Handle (BufferHandle example_mouse), Handle (BufferHandle example_time)]
     = Some ([] @ [HandleArray [BufferHandle (example_chunk 2 2), BufferHandle (example_chunk 3 1),
                    BufferHandle (example_chunk 4 3)]] @
       [Handle (BufferHandle example_mouse), Handle (BufferHandle example_time)]) \<and>
   (\<exists>ps. fst (construct example_env ''let i = id.x;''
              [HandleArray [BufferHandle (example_chunk 2 2), BufferHandle (example_chunk 3 1),
                            BufferHandle (example_chunk 4 3)],
               Handle (BufferHandle example_mouse), Handle (BufferHandle example_time)]
              (SizeValue (Some 6)) ''main'') = Inr (Passes (map Pass ps)) \<and>
      length ps = 3 \<and>
      pass_dispatchSize (ps ! 0) = [Some 2] \<and> pass_dispatchSize (ps ! 1) = [Some 1] \<and>
      pass_dispatchSize (ps ! 2) = [Some 3] \<and>
      pass_entries (ps ! 0) = [BufferResource 2, BufferResource 0, BufferResource 1] \<and>
      pass_entries (ps ! 1) = [BufferResource 3, BufferResource 0, BufferResource 1] \<and>
      pass_entries (ps ! 2) = [BufferResource 4, BufferResource 0, BufferResource 1])"
proof -
  let ?cs = "[BufferHandle (example_chunk 2 2), BufferHandle (example_chunk 3 1),
              BufferHandle (example_chunk 4 3)]"
  let ?post = "[Handle (BufferHandle example_mouse), Handle (BufferHandle example_time)]"
  let ?code = "''let i = id.x;''"
  have h1: "initialized (device example_env)" by (simp add: example_env_def)
  have h2: "finalized example_env ?code (HandleArray ?cs # ?post) = Some ([] @ [HandleArray ?cs] @ ?post)"
    by code_simp
  have h3: "\<forall>b \<in> set ([] @ ?post). \<exists>h. b = Handle h \<and> h \<noteq> NullHandle" by simp
  have h4: "NullHandle \<notin> set ?cs" by simp
  have "\<not> regex_test re_noise_call ?code" by code_simp
  then have pn: "calls_noise ?code = False" by (simp add: regex_test_noise_call)
  have cnt: "handle_count (?cs ! 0) = Inr (Some 2)" "handle_count (?cs ! 1) = Inr (Some 1)"
    "handle_count (?cs ! 2) = Inr (Some 3)"
    by (simp_all add: handle_count_def example_chunk_def)
  have res: "map binding_resource ([] @ [Handle (?cs ! 0)] @ ?post)
               = [BufferResource 2, BufferResource 0, BufferResource 1]"
    "map binding_resource ([] @ [Handle (?cs ! 1)] @ ?post)
               = [BufferResource 3, BufferResource 0, BufferResource 1]"
    "map binding_resource ([] @ [Handle (?cs ! 2)] @ ?post)
               = [BufferResource 4, BufferResource 0, BufferResource 1]"
    by (simp_all add: binding_resource_def example_chunk_def example_mouse_def example_time_def)
  from ComputePass_fan_out [OF h1 h2 h3 h4, of "SizeValue (Some 6)" "''main''"]
  obtain ps where c: "construct example_env ?code (HandleArray ?cs # ?post) (SizeValue (Some 6)) ''main''
        = (Inr (Passes (map Pass ps)), [] @ [HandleArray ?cs] @ ?post)"
    and len: "length ps = length ?cs"
    and each: "\<forall>i < length ?cs.
        pass_entries (ps ! i) = map binding_resource ([] @ [Handle (?cs ! i)] @ ?post) @
          (if calls_noise ?code
           then (case noiseBuffer example_env of
                   None \<Rightarrow> [] | Some nb \<Rightarrow> [BufferResource (buffer_gpu nb)])
           else []) \<and>
        (\<exists>n. handle_count (?cs ! i) = Inr n \<and> pass_dispatchSize (ps ! i) = [n])"
    by blast
  have i0: "(0::nat) < length ?cs" and i1: "(1::nat) < length ?cs" and i2: "(2::nat) < length ?cs"
    by simp_all
  from each [rule_format, OF i0] each [rule_format, OF i1] each [rule_format, OF i2]
  have "pass_dispatchSize (ps ! 0) = [Some 2] \<and> pass_dispatchSize (ps ! 1) = [Some 1] \<and>
      pass_dispatchSize (ps ! 2) = [Some 3] \<and>
      pass_entries (ps ! 0) = [BufferResource 2, BufferResource 0, BufferResource 1] \<and>
      pass_entries (ps ! 1) = [BufferResource 3, BufferResource 0, BufferResource 1] \<and>
      pass_entries (ps ! 2) = [BufferResource 4, BufferResource 0, BufferResource 1]"
    unfolding pn cnt res by auto
  moreover have "length ps = 3" using len by simp
  moreover have "fst (construct example_env ?code (HandleArray ?cs # ?post) (SizeValue (Some 6)) ''main'')
        = Inr (Passes (map Pass ps))" using c by simp
  ultimately show ?thesis using h2 by blast
qed

text \<open>
  Where the passes differ from the finalized list with the chunk in the array's place:
  the text calls \<open>noise\<close> and the noise buffer exists. The finalized list has three
  entries, the chunk array, the clock and the noise buffer; each of the two passes binds
  four, the noise buffer twice.
\<close>

theorem ComputePass_fan_out_repeats_noise:
  "finalized example_noise_env ''let v = noise(time);''
      [HandleArray [BufferHandle (example_chunk 2 2), BufferHandle (example_chunk 3 1)]]
     = Some [HandleArray [BufferHandle (example_chunk 2 2), BufferHandle (example_chunk 3 1)],
             Handle (BufferHandle example_time), Handle (BufferHandle example_noise)] \<and>
   map_sum id entries_of
     (fst (construct example_noise_env ''let v = noise(time);''
             [HandleArray [BufferHandle (example_chunk 2 2), BufferHandle (example_chunk 3 1)]]
             (SizeValue (Some 3)) ''main''))
     = Inr [[BufferResource 2, BufferResource 1, BufferResource 5, BufferResource 5],
            [BufferResource 3, BufferResource 1, BufferResource 5, BufferResource 5]]"
  by code_simp

section \<open>Verification: the auto-binding resolver\<close>

lemma whole_word_mouse_pos:
  assumes "pre = [] \<or> \<not> is_word (last pre)"
  shows "whole_word ''mouse'' (pre @ ''mouse.pos'' @ post)"
proof -
  have "pre @ ''mouse.pos'' @ post = pre @ ''mouse'' @ (''.pos'' @ post)" by simp
  moreover have "\<not> is_word (hd (''.pos'' @ post))" by (simp add: is_word_def)
  ultimately show ?thesis using assms unfolding whole_word_def by blast
qed

lemma appended_entries:
  assumes "auto_bind code (Auto_Bindings env) bs = (r, bs')"
  shows "\<exists>ex. bs' = bs @ ex \<and> distinct (map entry_name ex) \<and> distinct ex \<and>
      (\<forall>b \<in> set ex.
         (\<forall>b' \<in> set bs. entry_name b \<noteq> entry_name b') \<and>
         (whole_word ''mouse'' code \<and>
            b = Handle (case mouseBuffer env of None \<Rightarrow> NullHandle | Some mb \<Rightarrow> BufferHandle mb) \<or>
          whole_word ''time'' code \<and>
            b = Handle (case timeBuffer env of None \<Rightarrow> NullHandle | Some tb \<Rightarrow> BufferHandle tb) \<or>
          whole_word ''renderTxtr'' code \<and>
            (\<exists>t. renderTxtr env = Some t \<and>
                 b = Handle (TextureView \<lparr>tb_texture = t, tb_readOrWrite = WriteAccess\<rparr>)) \<or>
          whole_word ''feedbackTxtr'' code \<and>
            (\<exists>t. feedbackTxtr env = Some t \<and>
                 b = Handle (TextureView \<lparr>tb_texture = t, tb_readOrWrite = ReadAccess\<rparr>))))"
proof -
  from auto_bind_appends [OF assms] obtain ex where ex: "bs' = bs @ ex"
    and dist: "distinct (map entry_name ex)"
    and each: "\<forall>b \<in> set ex. (\<forall>b' \<in> set bs. entry_name b \<noteq> entry_name b') \<and>
              (\<exists>row \<in> set (Auto_Bindings env). \<exists>h. newBinding (fst row) = Inr h \<and> b = Handle h \<and>
                  regex_test (snd row) code)"
    by blast
  have "\<forall>b \<in> set ex.
         (\<forall>b' \<in> set bs. entry_name b \<noteq> entry_name b') \<and>
         (whole_word ''mouse'' code \<and>
            b = Handle (case mouseBuffer env of None \<Rightarrow> NullHandle | Some mb \<Rightarrow> BufferHandle mb) \<or>
          whole_word ''time'' code \<and>
            b = Handle (case timeBuffer env of None \<Rightarrow> NullHandle | Some tb \<Rightarrow> BufferHandle tb) \<or>
          whole_word ''renderTxtr'' code \<and>
            (\<exists>t. renderTxtr env = Some t \<and>
                 b = Handle (TextureView \<lparr>tb_texture = t, tb_readOrWrite = WriteAccess\<rparr>)) \<or>
          whole_word ''feedbackTxtr'' code \<and>
            (\<exists>t. feedbackTxtr env = Some t \<and>
                 b = Handle (TextureView \<lparr>tb_texture = t, tb_readOrWrite = ReadAccess\<rparr>)))"
  proof (rule ballI, rule conjI)
    fix b assume b: "b \<in> set ex"
    with each show "\<forall>b' \<in> set bs. entry_name b \<noteq> entry_name b'" by blast
    from each b obtain row h where "row \<in> set (Auto_Bindings env)" "newBinding (fst row) = Inr h"
      "b = Handle h" "regex_test (snd row) code" by blast
    with pushed_by_table [of row env h code]
    show "whole_word ''mouse'' code \<and>
            b = Handle (case mouseBuffer env of None \<Rightarrow> NullHandle | Some mb \<Rightarrow> BufferHandle mb) \<or>
          whole_word ''time'' code \<and>
            b = Handle (case timeBuffer env of None \<Rightarrow> NullHandle | Some tb \<Rightarrow> BufferHandle tb) \<or>
          whole_word ''renderTxtr'' code \<and>
            (\<exists>t. renderTxtr env = Some t \<and>
                 b = Handle (TextureView \<lparr>tb_texture = t, tb_readOrWrite = WriteAccess\<rparr>)) \<or>
          whole_word ''feedbackTxtr'' code \<and>
            (\<exists>t. feedbackTxtr env = Some t \<and>
                 b = Handle (TextureView \<lparr>tb_texture = t, tb_readOrWrite = ReadAccess\<rparr>))"
      by simp
  qed
  moreover from dist have "distinct ex" using distinct_map by blast
  ultimately show ?thesis using ex dist by blast
qed

text \<open>
  Claim C2, as the code has it. (1) If the clock buffer exists, the text matches
  \<open>\btime\b\<close> and none of the other three patterns, no noise call is matched while a
  noise buffer exists, and the explicit list is empty, then the finalized list is exactly
  the clock buffer, which the pass binds at slot 0. (2) Each of the four patterns matches
  exactly the texts in which its identifier occurs as a whole word, never as a part of a
  longer identifier; a text with \<open>mouse.pos\<close> behind a word boundary has \<open>mouse\<close> as a
  whole word. (3) If the pointer buffer exists, \<open>mouse\<close> occurs as a whole word, and the
  list holds no \<open>null\<close> and no entry with the pointer buffer's name, then the loop appends the pointer
  buffer as its first new entry, and no later new entry carries its name: it is appended
  once, however many times and in whichever form the word occurs. (4) Whatever the list
  and the text, the entries the loop appends are pairwise different, each has a name that
  no entry of the given list has, and each is the resource of a table row whose
  identifier occurs in the text as a whole word.
\<close>

theorem auto_binding_resolution:
  "(timeBuffer env = Some tb \<and> regex_test re_time code \<and> \<not> regex_test re_mouse code \<and>
    \<not> regex_test re_renderTxtr code \<and> \<not> regex_test re_feedbackTxtr code \<and>
    (regex_test re_noise_call code \<longrightarrow> noiseBuffer env = None) \<longrightarrow>
      finalized env code [] = Some [Handle (BufferHandle tb)] \<and>
      snd (construct env code [] d e) = [Handle (BufferHandle tb)] \<and>
      (initialized (device env) \<longrightarrow>
         (\<exists>p. fst (construct env code [] d e) = Inr (Pass p) \<and>
              pass_entries p = [BufferResource (buffer_gpu tb)]))) \<and>
   regex_test re_mouse code = whole_word ''mouse'' code \<and>
   regex_test re_time code = whole_word ''time'' code \<and>
   regex_test re_renderTxtr code = whole_word ''renderTxtr'' code \<and>
   regex_test re_feedbackTxtr code = whole_word ''feedbackTxtr'' code \<and>
   (\<forall>pre post. pre = [] \<or> \<not> is_word (last pre) \<longrightarrow>
      whole_word ''mouse'' (pre @ ''mouse.pos'' @ post)) \<and>
   (\<forall>mb. mouseBuffer env = Some mb \<and> whole_word ''mouse'' code \<and>
      (\<forall>b \<in> set bs. \<exists>n. entry_name b = Inr n \<and> n \<noteq> Some (buffer_name mb)) \<longrightarrow>
      (\<exists>r ex. auto_bind code (Auto_Bindings env) bs = (r, bs @ Handle (BufferHandle mb) # ex) \<and>
         (\<forall>b \<in> set ex. entry_name b \<noteq> Inr (Some (buffer_name mb))))) \<and>
   (\<forall>r bs'. auto_bind code (Auto_Bindings env) bs = (r, bs') \<longrightarrow>
      (\<exists>ex. bs' = bs @ ex \<and> distinct (map entry_name ex) \<and> distinct ex \<and>
         (\<forall>b \<in> set ex.
            (\<forall>b' \<in> set bs. entry_name b \<noteq> entry_name b') \<and>
            (whole_word ''mouse'' code \<and>
               b = Handle (case mouseBuffer env of
                             None \<Rightarrow> NullHandle | Some mb \<Rightarrow> BufferHandle mb) \<or>
             whole_word ''time'' code \<and>
               b = Handle (case timeBuffer env of
                             None \<Rightarrow> NullHandle | Some tb \<Rightarrow> BufferHandle tb) \<or>
             whole_word ''renderTxtr'' code \<and>
               (\<exists>t. renderTxtr env = Some t \<and>
                    b = Handle (TextureView \<lparr>tb_texture = t, tb_readOrWrite = WriteAccess\<rparr>)) \<or>
             whole_word ''feedbackTxtr'' code \<and>
               (\<exists>t. feedbackTxtr env = Some t \<and>
                    b = Handle (TextureView \<lparr>tb_texture = t, tb_readOrWrite = ReadAccess\<rparr>))))))"
proof (intro conjI impI allI)
  assume h: "timeBuffer env = Some tb \<and> regex_test re_time code \<and> \<not> regex_test re_mouse code \<and>
    \<not> regex_test re_renderTxtr code \<and> \<not> regex_test re_feedbackTxtr code \<and>
    (regex_test re_noise_call code \<longrightarrow> noiseBuffer env = None)"
  then show fin: "finalized env code [] = Some [Handle (BufferHandle tb)]"
    by (intro clock_only) simp_all
  then show "snd (construct env code [] d e) = [Handle (BufferHandle tb)]"
    by (rule construct_snd)
  assume "initialized (device env)"
  from construct_single_list [OF fin this, of d e]
  show "\<exists>p. fst (construct env code [] d e) = Inr (Pass p) \<and>
              pass_entries p = [BufferResource (buffer_gpu tb)]"
    by (simp add: binding_resource_def)
next
  show "regex_test re_mouse code = whole_word ''mouse'' code" by (rule regex_test_mouse)
  show "regex_test re_time code = whole_word ''time'' code" by (rule regex_test_time)
  show "regex_test re_renderTxtr code = whole_word ''renderTxtr'' code"
    by (rule regex_test_renderTxtr)
  show "regex_test re_feedbackTxtr code = whole_word ''feedbackTxtr'' code"
    by (rule regex_test_feedbackTxtr)
next
  fix pre post :: string
  assume "pre = [] \<or> \<not> is_word (last pre)"
  then show "whole_word ''mouse'' (pre @ ''mouse.pos'' @ post)" by (rule whole_word_mouse_pos)
next
  fix mb
  assume "mouseBuffer env = Some mb \<and> whole_word ''mouse'' code \<and>
      (\<forall>b \<in> set bs. \<exists>n. entry_name b = Inr n \<and> n \<noteq> Some (buffer_name mb))"
  then show "\<exists>r ex. auto_bind code (Auto_Bindings env) bs = (r, bs @ Handle (BufferHandle mb) # ex) \<and>
         (\<forall>b \<in> set ex. entry_name b \<noteq> Inr (Some (buffer_name mb)))"
    using pointer_first [of env mb code bs] by blast
next
  fix r bs'
  assume "auto_bind code (Auto_Bindings env) bs = (r, bs')"
  then show "\<exists>ex. bs' = bs @ ex \<and> distinct (map entry_name ex) \<and> distinct ex \<and>
         (\<forall>b \<in> set ex.
            (\<forall>b' \<in> set bs. entry_name b \<noteq> entry_name b') \<and>
            (whole_word ''mouse'' code \<and>
               b = Handle (case mouseBuffer env of
                             None \<Rightarrow> NullHandle | Some mb \<Rightarrow> BufferHandle mb) \<or>
             whole_word ''time'' code \<and>
               b = Handle (case timeBuffer env of
                             None \<Rightarrow> NullHandle | Some tb \<Rightarrow> BufferHandle tb) \<or>
             whole_word ''renderTxtr'' code \<and>
               (\<exists>t. renderTxtr env = Some t \<and>
                    b = Handle (TextureView \<lparr>tb_texture = t, tb_readOrWrite = WriteAccess\<rparr>)) \<or>
             whole_word ''feedbackTxtr'' code \<and>
               (\<exists>t. feedbackTxtr env = Some t \<and>
                    b = Handle (TextureView \<lparr>tb_texture = t, tb_readOrWrite = ReadAccess\<rparr>))))"
    by (rule appended_entries)
qed

theorem auto_binding_resolution_witness:
  "regex_test re_time ''let t = time;'' \<and>
   finalized example_env ''let t = time;'' [] = Some [Handle (BufferHandle example_time)] \<and>
   snd (construct example_env ''let t = time;'' [] (SizeValue (Some 1)) ''main'')
     = [Handle (BufferHandle example_time)] \<and>
   whole_word ''mouse'' ''let a = mouse.pos; let b = mouse;'' \<and>
   auto_bind ''let a = mouse.pos; let b = mouse;'' (Auto_Bindings example_env) []
     = (None, [Handle (BufferHandle example_mouse)]) \<and>
   \<not> whole_word ''mouse'' ''let mouses = 1;'' \<and>
   auto_bind ''let mouses = 1;'' (Auto_Bindings example_env) [] = (None, [])"
proof -
  have h: "timeBuffer example_env = Some example_time \<and> regex_test re_time ''let t = time;'' \<and>
    \<not> regex_test re_mouse ''let t = time;'' \<and>
    \<not> regex_test re_renderTxtr ''let t = time;'' \<and> \<not> regex_test re_feedbackTxtr ''let t = time;'' \<and>
    (regex_test re_noise_call ''let t = time;'' \<longrightarrow> noiseBuffer example_env = None)"
    by code_simp
  from auto_binding_resolution [of example_env example_time "''let t = time;''"
      "SizeValue (Some 1)" "''main''"] h
  have clock: "regex_test re_time ''let t = time;'' \<and>
   finalized example_env ''let t = time;'' [] = Some [Handle (BufferHandle example_time)] \<and>
   snd (construct example_env ''let t = time;'' [] (SizeValue (Some 1)) ''main'')
     = [Handle (BufferHandle example_time)]"
    by blast
  have m1: "regex_test re_mouse ''let a = mouse.pos; let b = mouse;''" by code_simp
  have m2: "\<not> regex_test re_mouse ''let mouses = 1;''" by code_simp
  have e1: "auto_bind ''let a = mouse.pos; let b = mouse;'' (Auto_Bindings example_env) []
     = (None, [Handle (BufferHandle example_mouse)])" by code_simp
  have e2: "auto_bind ''let mouses = 1;'' (Auto_Bindings example_env) [] = (None, [])"
    by code_simp
  from auto_binding_resolution [of example_env example_time "''let a = mouse.pos; let b = mouse;''"] m1
  have w1: "whole_word ''mouse'' ''let a = mouse.pos; let b = mouse;''" by blast
  from auto_binding_resolution [of example_env example_time "''let mouses = 1;''"] m2
  have w2: "\<not> whole_word ''mouse'' ''let mouses = 1;''" by blast
  from clock w1 e1 w2 e2 show ?thesis by blast
qed

text \<open>
  Where C2 fails as stated: a text with \<open>time\<close> and an empty explicit list does not
  always give a one-entry list. With \<open>mouse.pos\<close> in the same text the pointer buffer
  comes first and the clock is at slot 1.
\<close>

theorem auto_binding_time_not_alone:
  "regex_test re_time ''let p = mouse.pos + time;'' \<and>
   finalized example_env ''let p = mouse.pos + time;'' []
     = Some [Handle (BufferHandle example_mouse), Handle (BufferHandle example_time)]"
  by code_simp

section \<open>Verification: the caller's binding array\<close>

lemma pushed_resource:
  assumes ab: "auto_bind code (Auto_Bindings env) bs = (None, bs @ ex0)"
    and row: "row \<in> set (Auto_Bindings env)" and re: "regex_test (snd row) code"
    and name: "auto_name (fst row) = Inr m" and new: "newBinding (fst row) = Inr h"
    and free: "free_name env bs m"
  shows "Handle h \<in> set ex0"
proof -
  from free have f1: "\<forall>b \<in> set bs. entry_name b \<noteq> Inr (Some m)"
    and f2: "length (filter (\<lambda>n. n = Some m) (resource_names env)) = 1"
    by (simp_all add: free_name_def list_all_iff)
  from auto_bind_pushes_handle [OF ab row re name new f1 table_row_unique [OF f2 row name]]
  show ?thesis by auto
qed

text \<open>
  Claim C10. Let the caller's array hold \<open>bs\<close>, let the auto-binding loop not raise, and
  let no \<open>null\<close> be in the finalized list \<open>F\<close>. After the construction (whether or not
  building the pass then succeeds) the same array holds \<open>F\<close>, and no other array has
  changed. \<open>F\<close> is \<open>bs\<close> followed by the pushed entries \<open>ex\<close>. For each of the pointer
  buffer, the clock buffer, the output texture (as a write view) and the feedback texture
  (as a read view): when the resource exists, its identifier (\<open>mouse\<close>, \<open>time\<close>,
  \<open>renderTxtr\<close>, \<open>feedbackTxtr\<close>) occurs in the text as a whole word, no entry of \<open>bs\<close>
  carries its name and no other well-known resource has the same name, the resource is
  among the pushed entries. When the text calls \<open>noise\<close>, \<open>noise2\<close> or \<open>noise3\<close> and the
  noise buffer exists, the noise buffer is the last pushed entry. Every table resource
  whose pattern matches is named in \<open>F\<close>. A second construction given the same array
  starts from \<open>F\<close>.
\<close>

theorem ComputePass_pushes_onto_callers_array:
  assumes "store ref = Some bs" and "finalized env code bs = Some F"
    and "Handle NullHandle \<notin> set F"
  shows "snd (ComputePass_new env store code ref d e) = store(ref \<mapsto> F) \<and>
         (\<exists>ex. F = bs @ ex \<and>
            (\<forall>mb. mouseBuffer env = Some mb \<and> whole_word ''mouse'' code \<and>
               free_name env bs (buffer_name mb) \<longrightarrow> Handle (BufferHandle mb) \<in> set ex) \<and>
            (\<forall>tb. timeBuffer env = Some tb \<and> whole_word ''time'' code \<and>
               free_name env bs (buffer_name tb) \<longrightarrow> Handle (BufferHandle tb) \<in> set ex) \<and>
            (\<forall>t. renderTxtr env = Some t \<and> whole_word ''renderTxtr'' code \<and>
               free_name env bs (texture_name t) \<longrightarrow>
                 Handle (TextureView \<lparr>tb_texture = t, tb_readOrWrite = WriteAccess\<rparr>) \<in> set ex) \<and>
            (\<forall>t. feedbackTxtr env = Some t \<and> whole_word ''feedbackTxtr'' code \<and>
               free_name env bs (texture_name t) \<longrightarrow>
                 Handle (TextureView \<lparr>tb_texture = t, tb_readOrWrite = ReadAccess\<rparr>) \<in> set ex) \<and>
            (\<forall>nb. calls_noise code \<and> noiseBuffer env = Some nb \<longrightarrow>
               ex \<noteq> [] \<and> last ex = Handle (BufferHandle nb)) \<and>
            (\<forall>row \<in> set (Auto_Bindings env). regex_test (snd row) code \<longrightarrow> named F (fst row)) \<and>
            (\<forall>row \<in> set (Auto_Bindings env).
               regex_test (snd row) code \<and> some_named bs (fst row) = Inr False \<longrightarrow>
                 (\<exists>h. newBinding (fst row) = Inr h \<and>
                      (\<exists>b \<in> set ex. entry_name b = entry_name (Handle h))))) \<and>
         ComputePass_new env (snd (ComputePass_new env store code ref d e)) code' ref d' e' =
           (fst (construct env code' F d' e'),
            store(ref \<mapsto> snd (construct env code' F d' e')))"
proof -
  from assms(2) obtain F0 where ab: "auto_bind code (Auto_Bindings env) bs = (None, F0)"
    and F: "F = push_noise env code F0"
    by (auto simp: finalized_def split: prod.splits option.splits)
  from auto_bind_appends [OF ab] obtain ex0 where F0: "F0 = bs @ ex0" by blast
  note ab0 = ab [unfolded F0]
  define nz where "nz = push_noise env code []"
  have Fnz: "F = F0 @ nz" unfolding F nz_def by (rule push_noise_Nil)
  have sub: "set F0 \<subseteq> set F" unfolding Fnz by auto
  have first: "snd (ComputePass_new env store code ref d e) = store(ref \<mapsto> F)"
    using construct_snd [OF assms(2), of d e]
    by (cases "construct env code bs d e") (simp add: ComputePass_new_def assms(1))
  have nm: "named F0 (fst row)" if "row \<in> set (Auto_Bindings env)" "regex_test (snd row) code" for row
    using auto_bind_named [OF ab that] sub assms(3) by auto
  have nmF: "\<forall>row \<in> set (Auto_Bindings env). regex_test (snd row) code \<longrightarrow> named F (fst row)"
    using named_mono [OF nm sub] by blast
  have pushed: "\<forall>row \<in> set (Auto_Bindings env).
               regex_test (snd row) code \<and> some_named bs (fst row) = Inr False \<longrightarrow>
                 (\<exists>h. newBinding (fst row) = Inr h \<and>
                      (\<exists>b \<in> set (ex0 @ nz). entry_name b = entry_name (Handle h)))"
  proof (intro ballI impI)
    fix row
    assume row: "row \<in> set (Auto_Bindings env)"
      and "regex_test (snd row) code \<and> some_named bs (fst row) = Inr False"
    then have re: "regex_test (snd row) code" and sn: "some_named bs (fst row) = Inr False"
      by simp_all
    from nm [OF row re] obtain m b where m: "auto_name (fst row) = Inr m"
      and b: "b \<in> set F0" and bn: "entry_name b = Inr (Some m)"
      by (auto simp: named_def)
    from some_named_False [OF sn] m bn have "b \<notin> set bs" by auto
    then have bex: "b \<in> set ex0" using b F0 by simp
    from auto_name_newBinding [OF m] obtain h where h: "newBinding (fst row) = Inr h" by blast
    from newBinding_name [OF h m] bn bex h
    show "\<exists>h. newBinding (fst row) = Inr h \<and>
                      (\<exists>b \<in> set (ex0 @ nz). entry_name b = entry_name (Handle h))"
      by auto
  qed
  have mouse: "\<forall>mb. mouseBuffer env = Some mb \<and> whole_word ''mouse'' code \<and>
               free_name env bs (buffer_name mb) \<longrightarrow> Handle (BufferHandle mb) \<in> set (ex0 @ nz)"
  proof (intro allI impI)
    fix mb
    assume h: "mouseBuffer env = Some mb \<and> whole_word ''mouse'' code \<and>
               free_name env bs (buffer_name mb)"
    have "Handle (BufferHandle mb) \<in> set ex0"
    proof (rule pushed_resource [OF ab0, of "(AutoBuffer (mouseBuffer env), re_mouse)"])
      show "(AutoBuffer (mouseBuffer env), re_mouse) \<in> set (Auto_Bindings env)"
        by (simp add: Auto_Bindings_def)
      show "regex_test (snd (AutoBuffer (mouseBuffer env), re_mouse)) code"
        using h by (simp add: regex_test_mouse)
      show "auto_name (fst (AutoBuffer (mouseBuffer env), re_mouse)) = Inr (buffer_name mb)"
        using h by (simp add: auto_name_def)
      show "newBinding (fst (AutoBuffer (mouseBuffer env), re_mouse)) = Inr (BufferHandle mb)"
        using h by (simp add: newBinding_def)
      show "free_name env bs (buffer_name mb)" using h by simp
    qed
    then show "Handle (BufferHandle mb) \<in> set (ex0 @ nz)" by simp
  qed
  have clock: "\<forall>tb. timeBuffer env = Some tb \<and> whole_word ''time'' code \<and>
               free_name env bs (buffer_name tb) \<longrightarrow> Handle (BufferHandle tb) \<in> set (ex0 @ nz)"
  proof (intro allI impI)
    fix tb
    assume h: "timeBuffer env = Some tb \<and> whole_word ''time'' code \<and>
               free_name env bs (buffer_name tb)"
    have "Handle (BufferHandle tb) \<in> set ex0"
    proof (rule pushed_resource [OF ab0, of "(AutoBuffer (timeBuffer env), re_time)"])
      show "(AutoBuffer (timeBuffer env), re_time) \<in> set (Auto_Bindings env)"
        by (simp add: Auto_Bindings_def)
      show "regex_test (snd (AutoBuffer (timeBuffer env), re_time)) code"
        using h by (simp add: regex_test_time)
      show "auto_name (fst (AutoBuffer (timeBuffer env), re_time)) = Inr (buffer_name tb)"
        using h by (simp add: auto_name_def)
      show "newBinding (fst (AutoBuffer (timeBuffer env), re_time)) = Inr (BufferHandle tb)"
        using h by (simp add: newBinding_def)
      show "free_name env bs (buffer_name tb)" using h by simp
    qed
    then show "Handle (BufferHandle tb) \<in> set (ex0 @ nz)" by simp
  qed
  have outtex: "\<forall>t. renderTxtr env = Some t \<and> whole_word ''renderTxtr'' code \<and>
               free_name env bs (texture_name t) \<longrightarrow>
                 Handle (TextureView \<lparr>tb_texture = t, tb_readOrWrite = WriteAccess\<rparr>) \<in> set (ex0 @ nz)"
  proof (intro allI impI)
    fix t
    assume h: "renderTxtr env = Some t \<and> whole_word ''renderTxtr'' code \<and>
               free_name env bs (texture_name t)"
    have "Handle (TextureView \<lparr>tb_texture = t, tb_readOrWrite = WriteAccess\<rparr>) \<in> set ex0"
    proof (rule pushed_resource [OF ab0,
          of "(AutoTexture (renderTxtr env) WriteAccess, re_renderTxtr)"])
      show "(AutoTexture (renderTxtr env) WriteAccess, re_renderTxtr) \<in> set (Auto_Bindings env)"
        by (simp add: Auto_Bindings_def)
      show "regex_test (snd (AutoTexture (renderTxtr env) WriteAccess, re_renderTxtr)) code"
        using h by (simp add: regex_test_renderTxtr)
      show "auto_name (fst (AutoTexture (renderTxtr env) WriteAccess, re_renderTxtr))
              = Inr (texture_name t)"
        using h by (simp add: auto_name_def)
      show "newBinding (fst (AutoTexture (renderTxtr env) WriteAccess, re_renderTxtr))
              = Inr (TextureView \<lparr>tb_texture = t, tb_readOrWrite = WriteAccess\<rparr>)"
        using h by (simp add: newBinding_def)
      show "free_name env bs (texture_name t)" using h by simp
    qed
    then show "Handle (TextureView \<lparr>tb_texture = t, tb_readOrWrite = WriteAccess\<rparr>) \<in> set (ex0 @ nz)"
      by simp
  qed
  have feedback: "\<forall>t. feedbackTxtr env = Some t \<and> whole_word ''feedbackTxtr'' code \<and>
               free_name env bs (texture_name t) \<longrightarrow>
                 Handle (TextureView \<lparr>tb_texture = t, tb_readOrWrite = ReadAccess\<rparr>) \<in> set (ex0 @ nz)"
  proof (intro allI impI)
    fix t
    assume h: "feedbackTxtr env = Some t \<and> whole_word ''feedbackTxtr'' code \<and>
               free_name env bs (texture_name t)"
    have "Handle (TextureView \<lparr>tb_texture = t, tb_readOrWrite = ReadAccess\<rparr>) \<in> set ex0"
    proof (rule pushed_resource [OF ab0,
          of "(AutoTexture (feedbackTxtr env) ReadAccess, re_feedbackTxtr)"])
      show "(AutoTexture (feedbackTxtr env) ReadAccess, re_feedbackTxtr) \<in> set (Auto_Bindings env)"
        by (simp add: Auto_Bindings_def)
      show "regex_test (snd (AutoTexture (feedbackTxtr env) ReadAccess, re_feedbackTxtr)) code"
        using h by (simp add: regex_test_feedbackTxtr)
      show "auto_name (fst (AutoTexture (feedbackTxtr env) ReadAccess, re_feedbackTxtr))
              = Inr (texture_name t)"
        using h by (simp add: auto_name_def)
      show "newBinding (fst (AutoTexture (feedbackTxtr env) ReadAccess, re_feedbackTxtr))
              = Inr (TextureView \<lparr>tb_texture = t, tb_readOrWrite = ReadAccess\<rparr>)"
        using h by (simp add: newBinding_def)
      show "free_name env bs (texture_name t)" using h by simp
    qed
    then show "Handle (TextureView \<lparr>tb_texture = t, tb_readOrWrite = ReadAccess\<rparr>) \<in> set (ex0 @ nz)"
      by simp
  qed
  have noise: "\<forall>nb. calls_noise code \<and> noiseBuffer env = Some nb \<longrightarrow>
      ex0 @ nz \<noteq> [] \<and> last (ex0 @ nz) = Handle (BufferHandle nb)"
    by (simp add: nz_def push_noise_def regex_test_noise_call)
  have second: "ComputePass_new env (store(ref \<mapsto> F)) code' ref d' e' =
           (fst (construct env code' F d' e'),
            store(ref \<mapsto> snd (construct env code' F d' e')))"
    by (simp add: ComputePass_new_def split: prod.splits)
  have Fex: "F = bs @ (ex0 @ nz)" using Fnz F0 by simp
  have "\<exists>ex. F = bs @ ex \<and>
            (\<forall>mb. mouseBuffer env = Some mb \<and> whole_word ''mouse'' code \<and>
               free_name env bs (buffer_name mb) \<longrightarrow> Handle (BufferHandle mb) \<in> set ex) \<and>
            (\<forall>tb. timeBuffer env = Some tb \<and> whole_word ''time'' code \<and>
               free_name env bs (buffer_name tb) \<longrightarrow> Handle (BufferHandle tb) \<in> set ex) \<and>
            (\<forall>t. renderTxtr env = Some t \<and> whole_word ''renderTxtr'' code \<and>
               free_name env bs (texture_name t) \<longrightarrow>
                 Handle (TextureView \<lparr>tb_texture = t, tb_readOrWrite = WriteAccess\<rparr>) \<in> set ex) \<and>
            (\<forall>t. feedbackTxtr env = Some t \<and> whole_word ''feedbackTxtr'' code \<and>
               free_name env bs (texture_name t) \<longrightarrow>
                 Handle (TextureView \<lparr>tb_texture = t, tb_readOrWrite = ReadAccess\<rparr>) \<in> set ex) \<and>
            (\<forall>nb. calls_noise code \<and> noiseBuffer env = Some nb \<longrightarrow>
               ex \<noteq> [] \<and> last ex = Handle (BufferHandle nb)) \<and>
            (\<forall>row \<in> set (Auto_Bindings env). regex_test (snd row) code \<longrightarrow> named F (fst row)) \<and>
            (\<forall>row \<in> set (Auto_Bindings env).
               regex_test (snd row) code \<and> some_named bs (fst row) = Inr False \<longrightarrow>
                 (\<exists>h. newBinding (fst row) = Inr h \<and>
                      (\<exists>b \<in> set ex. entry_name b = entry_name (Handle h))))"
    using Fex mouse clock outtex feedback noise nmF pushed
    by (intro exI [of _ "ex0 @ nz"] conjI)
  with first second show ?thesis by (simp only:) 
qed

theorem ComputePass_pushes_onto_callers_array_witness:
  "finalized example_noise_env ''textureStore(renderTxtr, id.xy, vec4f(noise(time)));'' []
     = Some [Handle (BufferHandle example_time),
             Handle (TextureView
               \<lparr>tb_texture = \<lparr>texture_name = ''renderTxtr'', texture_format = ''rgba8unorm'',
                               texture_view = 0\<rparr>,
                tb_readOrWrite = WriteAccess\<rparr>),
             Handle (BufferHandle example_noise)] \<and>
   calls_noise ''textureStore(renderTxtr, id.xy, vec4f(noise(time)));'' \<and>
   snd (ComputePass_new example_noise_env (Map.empty(0 \<mapsto> []))
          ''textureStore(renderTxtr, id.xy, vec4f(noise(time)));'' 0
          (SizeValue (Some 1)) ''main'') 0
     = Some [Handle (BufferHandle example_time),
             Handle (TextureView
               \<lparr>tb_texture = \<lparr>texture_name = ''renderTxtr'', texture_format = ''rgba8unorm'',
                               texture_view = 0\<rparr>,
                tb_readOrWrite = WriteAccess\<rparr>),
             Handle (BufferHandle example_noise)] \<and>
   snd (ComputePass_new example_noise_env
          (snd (ComputePass_new example_noise_env (Map.empty(0 \<mapsto> []))
                  ''textureStore(renderTxtr, id.xy, vec4f(noise(time)));'' 0
                  (SizeValue (Some 1)) ''main''))
          ''let p = mouse.pos;'' 0 (SizeValue (Some 1)) ''main'') 0
     = Some [Handle (BufferHandle example_time),
             Handle (TextureView
               \<lparr>tb_texture = \<lparr>texture_name = ''renderTxtr'', texture_format = ''rgba8unorm'',
                               texture_view = 0\<rparr>,
                tb_readOrWrite = WriteAccess\<rparr>),
             Handle (BufferHandle example_noise),
             Handle (BufferHandle example_mouse)]"
proof -
  let ?code = "''textureStore(renderTxtr, id.xy, vec4f(noise(time)));''"
  let ?F = "[Handle (BufferHandle example_time),
             Handle (TextureView
               \<lparr>tb_texture = \<lparr>texture_name = ''renderTxtr'', texture_format = ''rgba8unorm'',
                               texture_view = 0\<rparr>,
                tb_readOrWrite = WriteAccess\<rparr>),
             Handle (BufferHandle example_noise)]"
  have h1: "(Map.empty(0 \<mapsto> [])) (0::nat) = Some ([] :: int option binding list)" by simp
  have h2: "finalized example_noise_env ?code [] = Some ?F"
    by code_simp
  have h3: "Handle NullHandle \<notin> set ?F" by simp
  have h4: "finalized example_noise_env ''let p = mouse.pos;'' ?F
      = Some (?F @ [Handle (BufferHandle example_mouse)])"
    by code_simp
  have "regex_test re_noise_call ?code" by code_simp
  then have cn: "calls_noise ?code" by (simp add: regex_test_noise_call)
  note T = ComputePass_pushes_onto_callers_array
         [where store = "Map.empty(0 \<mapsto> [])" and ref = 0 and d = "SizeValue (Some 1)"
            and e = "''main''" and code' = "''let p = mouse.pos;''" and d' = "SizeValue (Some 1)"
            and e' = "''main''", OF h1 h2 h3]
  from T have first: "snd (ComputePass_new example_noise_env (Map.empty(0 \<mapsto> [])) ?code 0
          (SizeValue (Some 1)) ''main'')
        = (Map.empty(0 \<mapsto> []))(0 \<mapsto> ?F)"
    by blast
  from T have second: "ComputePass_new example_noise_env
          (snd (ComputePass_new example_noise_env (Map.empty(0 \<mapsto> [])) ?code 0
                  (SizeValue (Some 1)) ''main''))
          ''let p = mouse.pos;'' 0 (SizeValue (Some 1)) ''main''
        = (fst (construct example_noise_env ''let p = mouse.pos;'' ?F
                  (SizeValue (Some 1)) ''main''),
           (Map.empty(0 \<mapsto> []))(0 \<mapsto>
              snd (construct example_noise_env ''let p = mouse.pos;'' ?F
                     (SizeValue (Some 1)) ''main'')))"
    by blast
  note second' = second [unfolded first]
  show ?thesis
    unfolding first second' using h2 cn construct_snd [OF h4] by simp
qed

section \<open>Verification: running passes\<close>

lemma run_compute:
  "runnable env (ComputePassObj c) \<Longrightarrow>
     ComputePass_run c encoder = Inr (encoder @ invocation (ComputePassObj c))"
  by (auto simp: runnable_def ComputePass_run_def invocation_def split: list.splits option.splits)

lemma run_render:
  "runnable env (RenderPassObj r) \<Longrightarrow>
     RenderPass_run env r encoder = Inr (encoder @ invocation (RenderPassObj r))"
  by (simp add: runnable_def RenderPass_run_def invocation_def)

lemma encode_list_runnable:
  "\<forall>p \<in> set ps. runnable env p \<Longrightarrow>
     encode_list env ps encoder = Inr (encoder @ concat (map invocation ps))"
proof (induction ps arbitrary: encoder)
  case Nil
  then show ?case by simp
next
  case (Cons p ps)
  have rp: "runnable env p" and IH: "\<And>enc. encode_list env ps enc = Inr (enc @ concat (map invocation ps))"
    using Cons by simp_all
  show ?case
  proof (cases p)
    case (ComputePassObj c)
    with rp have "ComputePass_run c encoder = Inr (encoder @ invocation p)"
      using run_compute by blast
    then show ?thesis using ComputePassObj IH by simp
  next
    case (RenderPassObj r)
    with rp have "RenderPass_run env r encoder = Inr (encoder @ invocation p)"
      using run_render by blast
    then show ?thesis using RenderPassObj IH by simp
  next
    case NotAPass
    with rp show ?thesis by (simp add: runnable_def)
  qed
qed

lemma encode_passes_runnable:
  "\<forall>p \<in> set (flattened passes). runnable env p \<Longrightarrow>
     encode_passes env passes encoder = Inr (encoder @ concat (map invocation (flattened passes)))"
proof (induction passes arbitrary: encoder)
  case Nil
  then show ?case by (simp add: flattened_def)
next
  case (Cons pass passes)
  have rest: "\<forall>p \<in> set (flattened passes). runnable env p"
    using Cons.prems by (simp add: flattened_def)
  show ?case
  proof (cases pass)
    case (OnePass p)
    then have rp: "runnable env p" using Cons.prems by (simp add: flattened_def)
    have fl: "flattened (pass # passes) = p # flattened passes"
      using OnePass by (simp add: flattened_def)
    show ?thesis
    proof (cases p)
      case (ComputePassObj c)
      with rp have "ComputePass_run c encoder = Inr (encoder @ invocation p)"
        using run_compute by blast
      then show ?thesis using ComputePassObj OnePass Cons.IH [OF rest] fl by simp
    next
      case (RenderPassObj r)
      with rp have "RenderPass_run env r encoder = Inr (encoder @ invocation p)"
        using run_render by blast
      then show ?thesis using RenderPassObj OnePass Cons.IH [OF rest] fl by simp
    next
      case NotAPass
      with rp show ?thesis by (simp add: runnable_def)
    qed
  next
    case (PassList ps)
    then have "\<forall>p \<in> set ps. runnable env p" using Cons.prems by (simp add: flattened_def)
    then show ?thesis
      using PassList Cons.IH [OF rest] by (simp add: encode_list_runnable flattened_def)
  qed
qed

lemma encode_repeats_runnable:
  "\<forall>p \<in> set (flattened passes). runnable env p \<Longrightarrow>
     encode_repeats env n passes encoder =
       Inr (encoder @ concat (replicate n (concat (map invocation (flattened passes)))))"
  by (induction n arbitrary: encoder) (simp_all add: encode_passes_runnable)

lemma runPasses_at_most_one:
  "snd (runPasses env passes repeats) = device env \<or>
   (\<exists>commands. snd (runPasses env passes repeats) =
        (device env)\<lparr>submitted := submitted (device env) @ [[commands]]\<rparr>)"
  by (auto simp: runPasses_def Let_def split: sum.splits)

text \<open>
  Claim C5. With a device and passes that can all record themselves, \<open>runPasses\<close>
  succeeds and adds exactly one submission, holding one command buffer: the invocations
  of the flattened pass list in order, that sequence repeated \<open>repeats\<close> times. And
  for arbitrary arguments, \<open>runPasses\<close> leaves the device as it was or adds exactly
  one submission of one command buffer: there is no partial and no per-pass submission.
\<close>

theorem runPasses_one_submission:
  assumes "initialized (device env)" and "\<forall>p \<in> set (flattened passes). runnable env p"
  shows "runPasses env (PassArray passes) repeats =
           (Inr (),
            (device env)\<lparr>submitted := submitted (device env) @
               [[concat (replicate (nat repeats) (concat (map invocation (flattened passes))))]]\<rparr>) \<and>
         length (submitted (snd (runPasses env (PassArray passes) repeats)))
           = Suc (length (submitted (device env))) \<and>
         (\<forall>passes' repeats'.
            snd (runPasses env passes' repeats') = device env \<or>
            (\<exists>commands. snd (runPasses env passes' repeats') =
               (device env)\<lparr>submitted := submitted (device env) @ [[commands]]\<rparr>))"
proof -
  have "runPasses env (PassArray passes) repeats =
           (Inr (),
            (device env)\<lparr>submitted := submitted (device env) @
               [[concat (replicate (nat repeats) (concat (map invocation (flattened passes))))]]\<rparr>)"
    using assms by (simp add: runPasses_def encode_repeats_runnable)
  then show ?thesis using runPasses_at_most_one [of env] by simp
qed

theorem runPasses_one_submission_witness:
  "runPasses example_env
      (PassArray
         [OnePass (ComputePassObj \<lparr>pass_code = ''A'', pass_entryPoint = ''main'', pass_entries = [],
                                    pass_dispatchSize = [Some 4]\<rparr>),
          PassList
            [ComputePassObj \<lparr>pass_code = ''B'', pass_entryPoint = ''main'', pass_entries = [],
                             pass_dispatchSize = [Some 2]\<rparr>,
             ComputePassObj \<lparr>pass_code = ''C'', pass_entryPoint = ''main'', pass_entries = [],
                             pass_dispatchSize = [Some 3]\<rparr>],
          OnePass (RenderPassObj \<lparr>rp_code = ''D'',
                                   rp_entries = [SamplerResource, TextureResource 0]\<rparr>)]) 1
   = (Inr (),
      (device example_env)\<lparr>submitted :=
        [[[BeginComputePass, SetPipeline ''A'' ''main'', SetBindGroup 0 [],
           DispatchWorkgroups [Some 4], EndPass,
           BeginComputePass, SetPipeline ''B'' ''main'', SetBindGroup 0 [],
           DispatchWorkgroups [Some 2], EndPass,
           BeginComputePass, SetPipeline ''C'' ''main'', SetBindGroup 0 [],
           DispatchWorkgroups [Some 3], EndPass,
           BeginRenderPass, SetPipeline ''D'' ''vs, fs'',
           SetBindGroup 0 [SamplerResource, TextureResource 0], Draw 6, EndPass]]]\<rparr>)"
proof -
  let ?passes = "[OnePass (ComputePassObj \<lparr>pass_code = ''A'', pass_entryPoint = ''main'', pass_entries = [],
                                    pass_dispatchSize = [Some 4]\<rparr>),
          PassList
            [ComputePassObj \<lparr>pass_code = ''B'', pass_entryPoint = ''main'', pass_entries = [],
                             pass_dispatchSize = [Some 2]\<rparr>,
             ComputePassObj \<lparr>pass_code = ''C'', pass_entryPoint = ''main'', pass_entries = [],
                             pass_dispatchSize = [Some 3]\<rparr>],
          OnePass (RenderPassObj \<lparr>rp_code = ''D'',
                                   rp_entries = [SamplerResource, TextureResource 0]\<rparr>)]"
  have h1: "initialized (device example_env)" by (simp add: example_env_def)
  have h2: "\<forall>p \<in> set (flattened ?passes). runnable example_env p"
    by (simp add: flattened_def runnable_def example_env_def)
  have sub: "submitted (device example_env) = []" by (simp add: example_env_def)
  from runPasses_one_submission [OF h1 h2, of 1] show ?thesis
    by (simp add: flattened_def invocation_def sub)
qed

section \<open>The scanner always returns, and never takes the line-based branch\<close>

lemma skip_line_less:
  assumes "position < length code" and "peek code position 0 \<noteq> Some (CHR 0x0A)"
  shows "position < skip_line code position"
proof -
  from assms have "skip_line code position = skip_line code (Suc position)"
    by (subst skip_line.simps) simp
  with skip_line_ge [of "Suc position" code] show ?thesis by simp
qed

lemma read_line_ge: "position \<le> read_line code position"
  using skip_line_ge [of position code] by (simp add: read_line_def Let_def)

lemma read_line_less:
  assumes "position < length code"
  shows "position < read_line code position"
proof (cases "peek code position 0 = Some (CHR 0x0A)")
  case True
  then have "skip_line code position = position"
    by (subst skip_line.simps) simp
  with True show ?thesis by (simp add: read_line_def Let_def)
next
  case False
  from skip_line_less [OF assms False] show ?thesis
    by (simp add: read_line_def Let_def)
qed

lemma parseFunction_cases:
  obtains (null) "parseFunction code position = (None, position)"
  | (fn) f p where "parseFunction code position = (Some f, p)" and "position < p"
proof (cases "fst (parseFunction code position)")
  case None
  then have "parseFunction code position = (None, snd (parseFunction code position))"
    by (metis prod.collapse)
  with parseFunction_None [OF this] null show ?thesis by simp
next
  case (Some f)
  then have eq: "parseFunction code position = (Some f, snd (parseFunction code position))"
    by (metis prod.collapse)
  from fn [OF eq parseFunction_Some [OF eq]] show ?thesis .
qed

lemma parse_loop_returns: "\<exists>r. parse_loop code position fs lines = Some r"
proof (induction "length code - position" arbitrary: position fs lines rule: less_induct)
  case less
  show ?case
  proof (cases "position < length code")
    case False
    then show ?thesis by (subst parse_loop.simps) simp
  next
    case True
    define p where "p = skipWhitespaceAndComments code position"
    have pos: "position \<le> p" by (simp add: p_def skipWhitespaceAndComments_ge)
    show ?thesis
    proof (cases "p \<ge> length code")
      case True
      with \<open>position < length code\<close> show ?thesis
        by (subst parse_loop.simps) (simp add: Let_def p_def)
    next
      case False
      then have p: "p < length code" by simp
      define fnCode where "fnCode = fst (parseFunction code p)"
      define p' where "p' = snd (parseFunction code p)"
      define q where "q = read_line code p'"
      define line where "line = trim (slice code p' q)"
      have step: "parse_loop code position fs lines =
          (if truthy fnCode then parse_loop code p' (fs @ [the fnCode]) lines
           else parse_loop code q fs (if line \<noteq> [] then lines @ [line] else lines))"
        using True p
        by (subst parse_loop.simps)
          (simp add: Let_def p_def [symmetric] fnCode_def [symmetric] p'_def [symmetric]
            q_def [symmetric] line_def [symmetric])
      show ?thesis
      proof (cases "truthy fnCode")
        case truthy: True
        then obtain f where "fnCode = Some f" by (auto simp: truthy_def split: option.splits)
        then have "p < p'"
          by (cases rule: parseFunction_cases [of code p]) (simp_all add: fnCode_def p'_def)
        with pos True have "length code - p' < length code - position" by simp
        from less [OF this] truthy step show ?thesis by simp
      next
        case falsy: False
        have "p < q"
        proof (cases rule: parseFunction_cases [of code p])
          case null
          then have "p' = p" by (simp add: p'_def)
          with read_line_less [OF p] show ?thesis by (simp add: q_def)
        next
          case (fn f r)
          then have "p < p'" by (simp add: p'_def)
          with read_line_ge [of p' code] show ?thesis by (simp add: q_def)
        qed
        with pos True have "length code - q < length code - position" by simp
        from less [OF this] falsy step show ?thesis by simp
      qed
    qed
  qed
qed

lemma extractFunctionsAndBody_returns: "\<exists>r. extractFunctionsAndBody code = Some r"
proof -
  obtain r where "parse_loop code 0 [] [] = Some r"
    using parse_loop_returns [of code 0 "[]" "[]"] by blast
  then show ?thesis
    by (cases r) (simp add: WGSLParser_parse_def extractFunctionsAndBody_def)
qed

lemma inject_noise_error:
  assumes "inject_noise ops env rnd code = (Inl e, env')"
  shows "e = DeviceNotInitialized ''Buffer'' \<and> \<not> initialized (device env)"
  using assms
  by (auto simp: inject_noise_def getNoiseCode_def Buffer_new_def Let_def
      split: if_splits option.splits prod.splits sum.splits)

lemma wgsl_returns:
  "(\<exists>r. wgsl ops env rnd code = Some r) \<and>
   (\<forall>e env'. wgsl ops env rnd code = Some (Inl e, env') \<longrightarrow>
      e = TypeError \<and> (width_text env = None \<or> height_text env = None) \<or>
      e = DeviceNotInitialized ''Buffer'' \<and> \<not> initialized (device env))"
proof (cases "width_text env")
  case None
  then show ?thesis by (simp add: wgsl_def)
next
  case w: (Some w)
  show ?thesis
  proof (cases "height_text env")
    case None
    with w show ?thesis by (simp add: wgsl_def)
  next
    case h: (Some h)
    obtain res env1 where inj: "inject_noise ops env rnd (substitute_size w h code) = (res, env1)"
      by force
    show ?thesis
    proof (cases res)
      case (Inl e)
      with inj inject_noise_error [of ops env rnd "substitute_size w h code" e env1] w h
      show ?thesis by (simp add: wgsl_def)
    next
      case (Inr code3)
      obtain r where "extractFunctionsAndBody (trim code3) = Some r"
        using extractFunctionsAndBody_returns by blast
      with inj Inr w h show ?thesis by (simp add: wgsl_def Let_def)
    qed
  qed
qed

text \<open>
  Claim C6. For every text, \<open>extractFunctionsAndBody\<close> returns a result and raises
  nothing: the parser's loop ends, and the result is the one of the character-level
  scan of the parser, never the one of the line-based branch. A scan that cannot
  complete a function (an opening brace that is never closed, a missing name or
  parameter list) is recovered inside the parser: \<open>parseFunction\<close> gives \<open>null\<close> with the
  cursor put back where it started, and \<open>parse\<close> takes the text up to the end of the
  line as a line of the body. The assembler \<open>wgsl\<close> returns for every text, and the only
  errors it returns are the type error of a canvas size that is not set and the missing
  device of the noise buffer: none comes from the scanner.
\<close>

theorem extractFunctionsAndBody_returns_scan:
  "(\<exists>fs lines.
      parse_loop code 0 [] [] = Some (fs, lines) \<and>
      WGSLParser_parse code
        = Some (Inr \<lparr>result_functions = fs, result_body = join [CHR 0x0A] lines\<rparr>) \<and>
      extractFunctionsAndBody code
        = Some \<lparr>result_functions = fs, result_body = join [CHR 0x0A] lines\<rparr>) \<and>
   (\<forall>position. fst (parseFunction code position) = None \<longrightarrow>
      snd (parseFunction code position) = position) \<and>
   (\<forall>position fs lines.
      position < length code \<and> skipWhitespaceAndComments code position < length code \<and>
      fst (parseFunction code (skipWhitespaceAndComments code position)) = None \<longrightarrow>
      parse_loop code position fs lines =
        parse_loop code (read_line code (skipWhitespaceAndComments code position)) fs
          (if trim (slice code (skipWhitespaceAndComments code position)
                      (read_line code (skipWhitespaceAndComments code position))) \<noteq> []
           then lines @ [trim (slice code (skipWhitespaceAndComments code position)
                                 (read_line code (skipWhitespaceAndComments code position)))]
           else lines)) \<and>
   (\<exists>r. wgsl ops env rnd code = Some r) \<and>
   (\<forall>e env'. wgsl ops env rnd code = Some (Inl e, env') \<longrightarrow>
      e = TypeError \<and> (width_text env = None \<or> height_text env = None) \<or>
      e = DeviceNotInitialized ''Buffer'' \<and> \<not> initialized (device env))"
proof -
  obtain r where "parse_loop code 0 [] [] = Some r"
    using parse_loop_returns [of code 0 "[]" "[]"] by blast
  moreover obtain fs lines where "r = (fs, lines)" by force
  ultimately have "parse_loop code 0 [] [] = Some (fs, lines)" by simp
  then have "\<exists>fs lines.
      parse_loop code 0 [] [] = Some (fs, lines) \<and>
      WGSLParser_parse code
        = Some (Inr \<lparr>result_functions = fs, result_body = join [CHR 0x0A] lines\<rparr>) \<and>
      extractFunctionsAndBody code
        = Some \<lparr>result_functions = fs, result_body = join [CHR 0x0A] lines\<rparr>"
    by (simp add: WGSLParser_parse_def extractFunctionsAndBody_def)
  moreover have null: "\<forall>position. fst (parseFunction code position) = None \<longrightarrow>
      snd (parseFunction code position) = position"
    using parseFunction_None by (metis prod.collapse)
  moreover have "\<forall>position fs lines.
      position < length code \<and> skipWhitespaceAndComments code position < length code \<and>
      fst (parseFunction code (skipWhitespaceAndComments code position)) = None \<longrightarrow>
      parse_loop code position fs lines =
        parse_loop code (read_line code (skipWhitespaceAndComments code position)) fs
          (if trim (slice code (skipWhitespaceAndComments code position)
                      (read_line code (skipWhitespaceAndComments code position))) \<noteq> []
           then lines @ [trim (slice code (skipWhitespaceAndComments code position)
                                 (read_line code (skipWhitespaceAndComments code position)))]
           else lines)"
  proof (intro allI impI)
    fix position fs lines
    assume a: "position < length code \<and> skipWhitespaceAndComments code position < length code \<and>
      fst (parseFunction code (skipWhitespaceAndComments code position)) = None"
    define p where "p = skipWhitespaceAndComments code position"
    from a null have "snd (parseFunction code p) = p" "fst (parseFunction code p) = None"
      by (simp_all add: p_def)
    with a show "parse_loop code position fs lines =
        parse_loop code (read_line code (skipWhitespaceAndComments code position)) fs
          (if trim (slice code (skipWhitespaceAndComments code position)
                      (read_line code (skipWhitespaceAndComments code position))) \<noteq> []
           then lines @ [trim (slice code (skipWhitespaceAndComments code position)
                                 (read_line code (skipWhitespaceAndComments code position)))]
           else lines)"
      unfolding p_def [symmetric]
      by (subst parse_loop.simps) (simp add: Let_def truthy_def p_def [symmetric])
  qed
  ultimately show ?thesis using wgsl_returns [of ops env rnd code] by blast
qed

theorem extractFunctionsAndBody_returns_scan_witness:
  "fst (parseFunction ''fn g(x: f32) -> f32 { return x;'' 0) = None \<and>
   snd (parseFunction ''fn g(x: f32) -> f32 { return x;'' 0) = 0 \<and>
   extractFunctionsAndBody ''fn g(x: f32) -> f32 { return x;''
     = Some \<lparr>result_functions = [], result_body = ''fn g(x: f32) -> f32 { return x;''\<rparr>"
proof -
  have null: "fst (parseFunction ''fn g(x: f32) -> f32 { return x;'' 0) = None"
    by code_simp
  have res: "extractFunctionsAndBody ''fn g(x: f32) -> f32 { return x;''
     = Some \<lparr>result_functions = [], result_body = ''fn g(x: f32) -> f32 { return x;''\<rparr>"
    by code_simp
  from extractFunctionsAndBody_returns_scan [of "''fn g(x: f32) -> f32 { return x;''"] null
  have "snd (parseFunction ''fn g(x: f32) -> f32 { return x;'' 0) = 0" by blast
  with null res show ?thesis by simp
qed

text \<open>
  A function whose brace is never closed: the result is the parser's, with the line in
  the body; the line-based branch would have given an empty body.
\<close>

theorem extractFunctionsAndBody_unterminated_brace:
  "extractFunctionsAndBody ''fn f() {''
     = Some \<lparr>result_functions = [], result_body = ''fn f() {''\<rparr> \<and>
   fallback_split ''fn f() {'' = \<lparr>result_functions = [], result_body = []\<rparr>"
  by code_simp

section \<open>Verification: a text with an entry point is not wrapped\<close>

text \<open>\<open>inside m s\<close>: the text \<open>s\<close> contains the text \<open>m\<close>.\<close>

definition inside :: "string \<Rightarrow> string \<Rightarrow> bool" where
  "inside m s = (\<exists>pre post. s = pre @ m @ post)"

lemma fn_header_inside:
  "fn_header name src =
     (\<exists>ws1 ws2. ws1 \<noteq> [] \<and> (\<forall>c \<in> set ws1. is_space c) \<and> (\<forall>c \<in> set ws2. is_space c) \<and>
        inside (''fn'' @ ws1 @ name @ ws2 @ ''('') src)"
  unfolding fn_header_def inside_def by (simp only: append_assoc) blast

lemma word_match_prefix:
  "match_atoms [WordBoundary, Lit w, WordBoundary] prev s \<Longrightarrow> prefix w s"
  by simp

lemma replace_word_copy:
  assumes "hd w \<notin> set m"
  shows "replace_word w r prev (m @ post) = m @ replace_word w r (last_char prev m) post"
  using assms
proof (induction m arbitrary: prev)
  case Nil
  then show ?case by (simp add: last_char_def)
next
  case (Cons c m)
  have no: "(w \<noteq> [] \<and> match_atoms [WordBoundary, Lit w, WordBoundary] prev (c # (m @ post)))
      = False"
  proof (rule iffI)
    assume a: "w \<noteq> [] \<and> match_atoms [WordBoundary, Lit w, WordBoundary] prev (c # (m @ post))"
    then have "prefix w (c # m @ post)" by simp
    with a have "hd w = c" by (cases w) simp_all
    with Cons.prems show False by simp
  qed simp
  have "hd w \<notin> set m" using Cons.prems by simp
  from Cons.IH [OF this, of "Some c"]
  have IH: "replace_word w r (Some c) (m @ post) =
      m @ replace_word w r (last_char (Some c) m) post" .
  have lc: "last_char prev (c # m) = last_char (Some c) m" by (simp add: last_char_def)
  have "replace_word w r prev (c # (m @ post)) = c # replace_word w r (Some c) (m @ post)"
    using no by (simp only: replace_word.simps append_Cons if_False)
  then show ?case unfolding IH lc by simp
qed

lemma prefix_over:
  assumes "prefix w (pre @ m @ post)" and "length pre < length w" and "m \<noteq> []"
  shows "hd m \<in> set w"
proof -
  from assms(1) obtain rest where eq: "pre @ m @ post = w @ rest" by (auto simp: prefix_def)
  have "(pre @ m @ post) ! length pre = hd m"
    using assms(3) by (cases m) (simp_all add: nth_append)
  moreover have "(w @ rest) ! length pre = w ! length pre"
    using assms(2) by (simp add: nth_append)
  ultimately have "w ! length pre = hd m" using eq by simp
  with assms(2) show ?thesis using nth_mem by fastforce
qed

lemma replace_word_keeps:
  assumes "m \<noteq> []" and "hd m \<notin> set w" and "hd w \<notin> set m"
  shows "inside m (replace_word w r prev (pre @ m @ post))"
proof (induction "length pre" arbitrary: pre prev rule: less_induct)
  case less
  show ?case
  proof (cases pre)
    case Nil
    have "replace_word w r prev (m @ post) = [] @ m @ replace_word w r (last_char prev m) post"
      using replace_word_copy [OF assms(3)] by simp
    with Nil show ?thesis unfolding inside_def by auto
  next
    case (Cons c pre1)
    let ?s = "c # (pre1 @ m @ post)"
    have s: "pre @ m @ post = ?s" using Cons by simp
    show ?thesis
    proof (cases "w \<noteq> [] \<and> match_atoms [WordBoundary, Lit w, WordBoundary] prev ?s")
      case True
      then have pw: "prefix w (pre @ m @ post)" unfolding s by simp
      have le: "length w \<le> length pre"
      proof (rule ccontr)
        assume "\<not> length w \<le> length pre"
        then have "length pre < length w" by simp
        from prefix_over [OF pw this assms(1)] assms(2) show False by simp
      qed
      from True have pos: "0 < length w" by simp
      have dr: "drop (length w) (pre @ m @ post) = drop (length w) pre @ m @ post"
        using le by simp
      have "length (drop (length w) pre) < length pre" using pos Cons by simp
      from less [OF this] obtain p' q' where
        "replace_word w r (last_char prev w) (drop (length w) pre @ m @ post) = p' @ m @ q'"
        unfolding inside_def by blast
      moreover have "replace_word w r prev ?s =
          r @ replace_word w r (last_char prev w) (drop (length w) ?s)"
        using True by (simp only: replace_word.simps if_True simp_thms)
      ultimately have "replace_word w r prev (pre @ m @ post) = (r @ p') @ m @ q'"
        unfolding s [symmetric] dr by simp
      then show ?thesis unfolding inside_def by blast
    next
      case False
      have "length pre1 < length pre" using Cons by simp
      from less [OF this] obtain p' q' where
        "replace_word w r (Some c) (pre1 @ m @ post) = p' @ m @ q'"
        unfolding inside_def by blast
      moreover have "replace_word w r prev ?s = c # replace_word w r (Some c) (pre1 @ m @ post)"
        using False by (simp only: replace_word.simps if_False)
      ultimately have "replace_word w r prev (pre @ m @ post) = (c # p') @ m @ q'"
        unfolding s by simp
      then show ?thesis unfolding inside_def by blast
    qed
  qed
qed

lemma replace_word_inside:
  assumes "m \<noteq> []" and "hd m \<notin> set w" and "hd w \<notin> set m" and "inside m s"
  shows "inside m (replace_word w r prev s)"
proof -
  from assms(4) obtain pre post where "s = pre @ m @ post" unfolding inside_def by blast
  with replace_word_keeps [OF assms(1-3)] show ?thesis by simp
qed

lemma replace_word_same:
  "\<not> search_from [WordBoundary, Lit w, WordBoundary] prev s \<Longrightarrow> replace_word w r prev s = s"
  by (induction s arbitrary: prev) auto

lemma dropWhile_keeps:
  assumes "m \<noteq> []" and "\<not> P (hd m)"
  shows "\<exists>pre'. dropWhile P (pre @ m @ post) = pre' @ m @ post"
proof (induction pre)
  case Nil
  from assms have "dropWhile P (m @ post) = [] @ m @ post" by (cases m) simp_all
  then show ?case by (simp only: append_Nil) blast
next
  case (Cons c pre)
  then obtain pre' where IH: "dropWhile P (pre @ m @ post) = pre' @ m @ post" by blast
  show ?case
  proof (cases "P c")
    case True
    with IH show ?thesis by simp
  next
    case False
    then have "dropWhile P ((c # pre) @ m @ post) = (c # pre) @ m @ post" by simp
    then show ?thesis by blast
  qed
qed

lemma trim_inside:
  assumes "m \<noteq> []" and "\<not> is_space (hd m)" and "\<not> is_space (last m)" and "inside m s"
  shows "inside m (trim s)"
proof -
  from assms(4) obtain pre post where s: "s = pre @ m @ post" unfolding inside_def by blast
  from dropWhile_keeps [where P = is_space and m = m and pre = pre and post = post,
      OF assms(1,2)] obtain pre' where
    d1: "dropWhile is_space (pre @ m @ post) = pre' @ m @ post" by blast
  have rm: "rev m \<noteq> []" "\<not> is_space (hd (rev m))"
    using assms(1,3) by (simp_all add: hd_rev)
  from dropWhile_keeps [where P = is_space and m = "rev m" and pre = "rev post"
      and post = "rev pre'", OF rm] obtain q where
    d2: "dropWhile is_space (rev post @ rev m @ rev pre') = q @ rev m @ rev pre'" by blast
  have "trim s = pre' @ m @ rev q"
    by (simp add: trim_def s d1 d2)
  then show ?thesis unfolding inside_def by blast
qed

lemma header_chars:
  assumes "\<forall>c \<in> set ws1. is_space c" and "\<forall>c \<in> set ws2. is_space c"
  shows "CHR ''w'' \<notin> set (''fn'' @ ws1 @ ''main'' @ ws2 @ ''('')"
    and "CHR ''h'' \<notin> set (''fn'' @ ws1 @ ''main'' @ ws2 @ ''('')"
proof -
  have "\<not> is_space CHR ''w''" "\<not> is_space CHR ''h''" by (simp_all add: is_space_def)
  with assms show "CHR ''w'' \<notin> set (''fn'' @ ws1 @ ''main'' @ ws2 @ ''('')"
    and "CHR ''h'' \<notin> set (''fn'' @ ws1 @ ''main'' @ ws2 @ ''('')"
    by auto
qed

lemma header_kept:
  assumes "fn_header ''main'' code"
  shows "fn_header ''main'' (substitute_size w h code)"
    and "fn_header ''main'' (trim (substitute_size w h code))"
    and "fn_header ''main'' (trim (front @ substitute_size w h code))"
proof -
  from assms obtain ws1 ws2 where ws: "ws1 \<noteq> []" "\<forall>c \<in> set ws1. is_space c"
    "\<forall>c \<in> set ws2. is_space c"
    and ins: "inside (''fn'' @ ws1 @ ''main'' @ ws2 @ ''('') code"
    unfolding fn_header_inside by blast
  let ?m = "''fn'' @ ws1 @ ''main'' @ ws2 @ ''(''"
  have m: "?m \<noteq> []" "hd ?m = CHR ''f''" "last ?m = CHR ''(''" by simp_all
  have sp: "\<not> is_space (hd ?m)" "\<not> is_space (last ?m)"
    unfolding m by (simp_all add: is_space_def)
  have i1: "inside ?m (replace_word ''width'' w None code)"
  proof (rule replace_word_inside [OF m(1) _ _ ins])
    show "hd ?m \<notin> set ''width''" by simp
    show "hd ''width'' \<notin> set ?m" using header_chars(1) [OF ws(2,3)] by simp
  qed
  have i2: "inside ?m (substitute_size w h code)"
    unfolding substitute_size_def
  proof (rule replace_word_inside [OF m(1) _ _ i1])
    show "hd ?m \<notin> set ''height''" by simp
    show "hd ''height'' \<notin> set ?m" using header_chars(2) [OF ws(2,3)] by simp
  qed
  from i2 obtain pre post where "substitute_size w h code = pre @ ?m @ post"
    unfolding inside_def by blast
  then have "front @ substitute_size w h code = (front @ pre) @ ?m @ post" by simp
  then have i3: "inside ?m (front @ substitute_size w h code)"
    unfolding inside_def by blast
  from i2 ws show "fn_header ''main'' (substitute_size w h code)"
    unfolding fn_header_inside by blast
  from trim_inside [OF m(1) sp i2] ws show "fn_header ''main'' (trim (substitute_size w h code))"
    unfolding fn_header_inside by blast
  from trim_inside [OF m(1) sp i3] ws
  show "fn_header ''main'' (trim (front @ substitute_size w h code))"
    unfolding fn_header_inside by blast
qed

lemma substitute_size_same:
  assumes "\<not> whole_word ''width'' code" and "\<not> whole_word ''height'' code"
  shows "substitute_size w h code = code"
proof -
  have w: "\<not> search_from [WordBoundary, Lit ''width'', WordBoundary] None code"
    using assms(1) regex_test_word [of "''width''" code]
    by (simp add: regex_test_def is_word_def)
  have h: "\<not> search_from [WordBoundary, Lit ''height'', WordBoundary] None code"
    using assms(2) regex_test_word [of "''height''" code]
    by (simp add: regex_test_def is_word_def)
  show ?thesis
    unfolding substitute_size_def replace_word_same [OF w] replace_word_same [OF h] ..
qed

lemma needs_noise_text:
  "needs_noise s =
     (calls_noise s \<and> \<not> fn_header ''noise'' s \<and> \<not> fn_header ''noise2'' s \<and>
      \<not> fn_header ''noise3'' s)"
  by (simp add: needs_noise_def regex_test_noise_call regex_test_fn)

lemma wgsl_plain:
  assumes "fn_header ''main'' code" and "width_text env = Some w" and "height_text env = Some h"
    and "\<not> needs_noise (substitute_size w h code)"
  shows "wgsl ops env rnd code = Some (Inr (trim (substitute_size w h code)), env)"
  using assms(2-4) header_kept(2) [OF assms(1), of w h]
  by (simp add: wgsl_def inject_noise_def regex_test_fn Let_def)

lemma wgsl_noise:
  assumes "fn_header ''main'' code" and "width_text env = Some w" and "height_text env = Some h"
    and "needs_noise (substitute_size w h code)"
    and "getNoiseCode ops env rnd = (Inr noise_code, env')"
  shows "wgsl ops env rnd code =
           Some (Inr (trim (noise_code @ [CHR 0x0A, CHR 0x0A] @ substitute_size w h code)), env')"
proof -
  have "fn_header ''main'' (trim ((noise_code @ [CHR 0x0A, CHR 0x0A]) @ substitute_size w h code))"
    by (rule header_kept(3) [OF assms(1)])
  then show ?thesis
    using assms(2-5)
    by (simp add: wgsl_def inject_noise_def regex_test_fn Let_def)
qed

text \<open>
  Claim C7, as the code has it. Let the rendered text of a template contain \<open>fn\<close>, white
  space, \<open>main\<close>, optional white space and an opening parenthesis, and let the width and
  the height of the canvas be set. The text in which every whole word \<open>width\<close>, then
  every whole word \<open>height\<close>, is replaced by the number's text still contains that
  header, and is the rendered text itself when it has neither word. \<open>wgsl\<close> returns this
  text without leading and trailing white space, and builds no entry point around it.
  When the text calls \<open>noise\<close>, \<open>noise2\<close> or \<open>noise3\<close> and defines none of the three, the
  noise functions and an empty line stand in front of it: with a noise buffer the
  environment is left as it is, without one the buffer is created on the device, and
  without a device the call fails.
\<close>

theorem wgsl_keeps_main:
  assumes "fn_header ''main'' code" and "width_text env = Some w" and "height_text env = Some h"
  shows "fn_header ''main'' (substitute_size w h code) \<and>
         (\<not> whole_word ''width'' code \<and> \<not> whole_word ''height'' code \<longrightarrow>
            substitute_size w h code = code) \<and>
         (\<not> (calls_noise (substitute_size w h code) \<and>
              \<not> fn_header ''noise'' (substitute_size w h code) \<and>
              \<not> fn_header ''noise2'' (substitute_size w h code) \<and>
              \<not> fn_header ''noise3'' (substitute_size w h code)) \<longrightarrow>
            wgsl ops env rnd code = Some (Inr (trim (substitute_size w h code)), env)) \<and>
         (calls_noise (substitute_size w h code) \<and>
            \<not> fn_header ''noise'' (substitute_size w h code) \<and>
            \<not> fn_header ''noise2'' (substitute_size w h code) \<and>
            \<not> fn_header ''noise3'' (substitute_size w h code) \<longrightarrow>
            (noiseBuffer env \<noteq> None \<longrightarrow>
               wgsl ops env rnd code =
                 Some (Inr (trim (noise_code @ [CHR 0x0A, CHR 0x0A] @ substitute_size w h code)),
                       env)) \<and>
            (noiseBuffer env = None \<and> initialized (device env) \<longrightarrow>
               (\<exists>b. wgsl ops env rnd code =
                  Some (Inr (trim (noise_code @ [CHR 0x0A, CHR 0x0A] @ substitute_size w h code)),
                        env\<lparr>device := (device env)\<lparr>buffers := buffers (device env) @
                                          [new_Float32Array ops (map Num rnd)]\<rparr>,
                            noiseBuffer := Some b\<rparr>) \<and>
                  buffer_name b = ''noiseOffset'' \<and>
                  buffer_data b = new_Float32Array ops (map Num rnd))) \<and>
            (noiseBuffer env = None \<and> \<not> initialized (device env) \<longrightarrow>
               wgsl ops env rnd code = Some (Inl (DeviceNotInitialized ''Buffer''), env)))"
proof (intro conjI impI)
  show "fn_header ''main'' (substitute_size w h code)"
    by (rule header_kept(1) [OF assms(1)])
next
  assume "\<not> whole_word ''width'' code \<and> \<not> whole_word ''height'' code"
  then show "substitute_size w h code = code" by (simp add: substitute_size_same)
next
  assume "\<not> (calls_noise (substitute_size w h code) \<and>
              \<not> fn_header ''noise'' (substitute_size w h code) \<and>
              \<not> fn_header ''noise2'' (substitute_size w h code) \<and>
              \<not> fn_header ''noise3'' (substitute_size w h code))"
  then have "\<not> needs_noise (substitute_size w h code)" unfolding needs_noise_text .
  from wgsl_plain [OF assms this]
  show "wgsl ops env rnd code = Some (Inr (trim (substitute_size w h code)), env)" .
next
  assume n: "calls_noise (substitute_size w h code) \<and>
            \<not> fn_header ''noise'' (substitute_size w h code) \<and>
            \<not> fn_header ''noise2'' (substitute_size w h code) \<and>
            \<not> fn_header ''noise3'' (substitute_size w h code)"
  then have nn: "needs_noise (substitute_size w h code)" unfolding needs_noise_text .
  {
    assume "noiseBuffer env \<noteq> None"
    then have "getNoiseCode ops env rnd = (Inr noise_code, env)"
      by (auto simp: getNoiseCode_def)
    from wgsl_noise [OF assms nn this]
    show "wgsl ops env rnd code =
                 Some (Inr (trim (noise_code @ [CHR 0x0A, CHR 0x0A] @ substitute_size w h code)),
                       env)" .
  next
    assume a: "noiseBuffer env = None \<and> initialized (device env)"
    define b :: "'a buffer" where "b = \<lparr>buffer_name = ''noiseOffset'',
        buffer_data = new_Float32Array ops (map Num rnd),
        buffer_size = 4 * length (new_Float32Array ops (map Num rnd)),
        buffer_gpu = length (buffers (device env)), buffer_struct = None,
        buffer_isArray = False, buffer_count = None\<rparr>"
    have "getNoiseCode ops env rnd =
        (Inr noise_code, env\<lparr>device := (device env)\<lparr>buffers := buffers (device env) @
                                          [new_Float32Array ops (map Num rnd)]\<rparr>,
                            noiseBuffer := Some b\<rparr>)"
      using a by (simp add: getNoiseCode_def Buffer_new_def Let_def b_def)
    from wgsl_noise [OF assms nn this]
    have "wgsl ops env rnd code =
                  Some (Inr (trim (noise_code @ [CHR 0x0A, CHR 0x0A] @ substitute_size w h code)),
                        env\<lparr>device := (device env)\<lparr>buffers := buffers (device env) @
                                          [new_Float32Array ops (map Num rnd)]\<rparr>,
                            noiseBuffer := Some b\<rparr>) \<and>
                  buffer_name b = ''noiseOffset'' \<and>
                  buffer_data b = new_Float32Array ops (map Num rnd)"
      by (simp add: b_def)
    then show "\<exists>b. wgsl ops env rnd code =
                  Some (Inr (trim (noise_code @ [CHR 0x0A, CHR 0x0A] @ substitute_size w h code)),
                        env\<lparr>device := (device env)\<lparr>buffers := buffers (device env) @
                                          [new_Float32Array ops (map Num rnd)]\<rparr>,
                            noiseBuffer := Some b\<rparr>) \<and>
                  buffer_name b = ''noiseOffset'' \<and>
                  buffer_data b = new_Float32Array ops (map Num rnd)"
      by blast
  next
    assume a: "noiseBuffer env = None \<and> \<not> initialized (device env)"
    then have "getNoiseCode ops env rnd = (Inl (DeviceNotInitialized ''Buffer''), env)"
      by (simp add: getNoiseCode_def Buffer_new_def)
    then show "wgsl ops env rnd code = Some (Inl (DeviceNotInitialized ''Buffer''), env)"
      using assms(2,3) nn by (simp add: wgsl_def inject_noise_def)
  }
qed

theorem wgsl_keeps_main_witness:
  "regex_test (re_fn ''main'') ''fn main() { let w = width; let widths = height*2; }'' \<and>
   substitute_size ''512.00'' ''512.00'' ''fn main() { let w = width; let widths = height*2; }''
     = ''fn main() { let w = 512.00; let widths = 512.00*2; }'' \<and>
   wgsl example_ops example_env [Some 1, Some 2, Some 3]
      ''fn main() { let w = width; let widths = height*2; }''
     = Some (Inr ''fn main() { let w = 512.00; let widths = 512.00*2; }'', example_env)"
proof -
  let ?code = "''fn main() { let w = width; let widths = height*2; }''"
  let ?sub = "''fn main() { let w = 512.00; let widths = 512.00*2; }''"
  have re: "regex_test (re_fn ''main'') ?code" by code_simp
  then have h1: "fn_header ''main'' ?code" by (simp add: regex_test_fn)
  have h2: "width_text example_env = Some ''512.00''" by (simp add: example_env_def)
  have h3: "height_text example_env = Some ''512.00''" by (simp add: example_env_def)
  have sub: "substitute_size ''512.00'' ''512.00'' ?code = ?sub" by code_simp
  have tr: "trim ?sub = ?sub" by code_simp
  have "\<not> regex_test re_noise_call ?sub" by code_simp
  then have no: "\<not> calls_noise (substitute_size ''512.00'' ''512.00'' ?code)"
    by (simp add: sub regex_test_noise_call)
  from wgsl_keeps_main [OF h1 h2 h3, of example_ops "[Some 1, Some 2, Some 3]"] no
  have "wgsl example_ops example_env [Some 1, Some 2, Some 3] ?code
      = Some (Inr (trim (substitute_size ''512.00'' ''512.00'' ?code)), example_env)"
    by blast
  with re sub tr show ?thesis by simp
qed

text \<open>
  Where C7 fails as stated: the returned text is not always the rendered text with only
  \<open>width\<close> and \<open>height\<close> replaced. White space around it is removed; and a text with its
  own \<open>main\<close> that calls \<open>noise2\<close> comes back with the noise functions in front of it
  (1508 characters, beginning with \<open>fn rand(\<close>, for a text of 32), and the call creates
  the noise buffer.
\<close>

theorem wgsl_changes_text_with_main:
  "map_option fst (wgsl example_ops example_env [Some 1, Some 2, Some 3] ''  fn main() {}  '')
     = Some (Inr ''fn main() {}'') \<and>
   map_option (\<lambda>r. (map_sum id (take 8) (fst r), map_sum id length (fst r),
                      map_option buffer_name (noiseBuffer (snd r))))
     (wgsl example_ops example_env [Some 1, Some 2, Some 3] ''fn main() { let v = noise2(p); }'')
     = Some (Inr ''fn rand('', Inr 1508, Some ''noiseOffset'')"
  by code_simp

end
